theory Spec2Isabelle
  imports
    Complex_Main
    "HOL-Library.Log_Nat"
    "HOL-Library.Multiset"
    "HOL-Library.Product_Lexorder"
begin

section \<open>Double-precision values\<close>

text \<open>
  The analyzer stores \<^verbatim>\<open>double\<close> values. A value is a NaN, an infinity, the negative
  zero, or a rational number (\<open>Fin 0\<close> is the positive zero). A NaN carries its sign bit
  (\<open>NaN True\<close> is printed as \<^verbatim>\<open>-nan\<close>); its payload is not represented. Arithmetic is
  IEEE 754 binary64 in the default rounding mode (to nearest, ties to even): 53 bits of
  precision, exponents from \<open>-1022\<close> to \<open>1023\<close>, gradual underflow. NaN results are those of
  the scalar SSE2 instructions of x86-64: an operation on a NaN returns its first NaN
  operand, and an invalid operation on other values returns the default NaN, whose sign
  bit is set.
\<close>

datatype double = NaN bool | PosInf | NegInf | NegZero | Fin rat

definition pow2 :: "int \<Rightarrow> rat" where
  "pow2 k = 2 powi k"

definition floor_log2 :: "rat \<Rightarrow> int" where
  \<comment> \<open>for \<open>a > 0\<close>, the exponent \<open>e\<close> with \<open>2 ^ e \<le> a < 2 ^ (e + 1)\<close>\<close>
  "floor_log2 a = (if 1 \<le> a then bitlen \<lfloor>a\<rfloor> - 1 else - bitlen (\<lceil>1 / a\<rceil> - 1))"

definition round_half_even :: "rat \<Rightarrow> int" where
  "round_half_even x =
     (let f = \<lfloor>x\<rfloor>; d = x - of_int f
      in if d < 1 / 2 then f
         else if 1 / 2 < d then f + 1
         else if even f then f else f + 1)"

definition round_unbounded :: "rat \<Rightarrow> rat" where
  \<comment> \<open>the magnitude \<open>a > 0\<close> rounded to 53 bits, with no bound on the exponent\<close>
  "round_unbounded a =
     (let t = floor_log2 a - 52 in of_int (round_half_even (a / pow2 t)) * pow2 t)"

definition round_magnitude :: "rat \<Rightarrow> rat" where
  \<comment> \<open>the magnitude \<open>a > 0\<close> rounded to the binary64 grid (subnormal below \<open>2 ^ -1022\<close>)\<close>
  "round_magnitude a =
     (let t = max (floor_log2 a) (- 1022) - 52
      in of_int (round_half_even (a / pow2 t)) * pow2 t)"

definition make_double :: "bool \<Rightarrow> rat \<Rightarrow> double" where
  \<comment> \<open>a sign and a rounded magnitude: overflow gives an infinity, zero keeps the sign\<close>
  "make_double neg r =
     (if pow2 1024 \<le> r then (if neg then NegInf else PosInf)
      else if r = 0 then (if neg then NegZero else Fin 0)
      else Fin (if neg then - r else r))"

definition round_double :: "rat \<Rightarrow> double" where
  \<comment> \<open>the double nearest to a non-zero exact result\<close>
  "round_double q = make_double (q < 0) (round_magnitude \<bar>q\<bar>)"

fun is_nan :: "double \<Rightarrow> bool" where
  "is_nan (NaN s) = True"
| "is_nan _ = False"

fun is_inf :: "double \<Rightarrow> bool" where
  "is_inf PosInf = True"
| "is_inf NegInf = True"
| "is_inf _ = False"

fun is_zero :: "double \<Rightarrow> bool" where
  "is_zero NegZero = True"
| "is_zero (Fin q) = (q = 0)"
| "is_zero _ = False"

fun signbit :: "double \<Rightarrow> bool" where
  "signbit (NaN s) = s"
| "signbit NegInf = True"
| "signbit NegZero = True"
| "signbit (Fin q) = (q < 0)"
| "signbit _ = False"

fun rat_of :: "double \<Rightarrow> rat" where
  "rat_of (Fin q) = q"
| "rat_of _ = 0"

fun position :: "double \<Rightarrow> int \<times> rat" where
  \<comment> \<open>the place of a value other than NaN on the extended line; both zeros share one\<close>
  "position NegInf = (- 1, 0)"
| "position PosInf = (1, 0)"
| "position (Fin q) = (0, q)"
| "position _ = (0, 0)"

definition dlt :: "double \<Rightarrow> double \<Rightarrow> bool" where
  \<comment> \<open>\<^verbatim>\<open>a < b\<close>: false as soon as one side is NaN\<close>
  "dlt a b = (\<not> is_nan a \<and> \<not> is_nan b \<and> position a < position b)"

definition dgt :: "double \<Rightarrow> double \<Rightarrow> bool" where
  "dgt a b = dlt b a"

definition deq :: "double \<Rightarrow> double \<Rightarrow> bool" where
  \<comment> \<open>\<^verbatim>\<open>a == b\<close>: NaN equals nothing, the two zeros are equal\<close>
  "deq a b = (\<not> is_nan a \<and> \<not> is_nan b \<and> position a = position b)"

definition dge :: "double \<Rightarrow> double \<Rightarrow> bool" where
  "dge a b = (\<not> is_nan a \<and> \<not> is_nan b \<and> position b \<le> position a)"

fun dneg :: "double \<Rightarrow> double" where
  "dneg (NaN s) = NaN (\<not> s)"
| "dneg PosInf = NegInf"
| "dneg NegInf = PosInf"
| "dneg NegZero = Fin 0"
| "dneg (Fin q) = (if q = 0 then NegZero else Fin (- q))"

definition dadd :: "double \<Rightarrow> double \<Rightarrow> double" where
  "dadd a b =
     (if is_nan a then a
      else if is_nan b then b
      else if is_inf a \<and> is_inf b then (if a = b then a else NaN True)
      else if is_inf a then a
      else if is_inf b then b
      else if rat_of a + rat_of b = 0 then (if signbit a \<and> signbit b then NegZero else Fin 0)
      else round_double (rat_of a + rat_of b))"

definition dsub :: "double \<Rightarrow> double \<Rightarrow> double" where
  "dsub a b = (if is_nan a then a else if is_nan b then b else dadd a (dneg b))"

definition dmul :: "double \<Rightarrow> double \<Rightarrow> double" where
  "dmul a b =
     (if is_nan a then a
      else if is_nan b then b
      else if (is_inf a \<and> is_zero b) \<or> (is_zero a \<and> is_inf b) then NaN True
      else if is_inf a \<or> is_inf b then (if signbit a \<noteq> signbit b then NegInf else PosInf)
      else if is_zero a \<or> is_zero b then (if signbit a \<noteq> signbit b then NegZero else Fin 0)
      else round_double (rat_of a * rat_of b))"

definition ddiv :: "double \<Rightarrow> double \<Rightarrow> double" where
  "ddiv a b =
     (if is_nan a then a
      else if is_nan b then b
      else if (is_inf a \<and> is_inf b) \<or> (is_zero a \<and> is_zero b) then NaN True
      else if is_inf a \<or> is_zero b then (if signbit a \<noteq> signbit b then NegInf else PosInf)
      else if is_zero a \<or> is_inf b then (if signbit a \<noteq> signbit b then NegZero else Fin 0)
      else round_double (rat_of a / rat_of b))"

definition isqrt_step :: "int \<Rightarrow> int \<Rightarrow> int" where
  "isqrt_step n r = (if (r + 1) * (r + 1) \<le> n then r + 1 else r)"

function isqrt :: "int \<Rightarrow> int" where
  \<comment> \<open>the integer part of the square root\<close>
  "isqrt n = (if n \<le> 0 then 0 else isqrt_step n (2 * isqrt (n div 4)))"
  by pat_completeness auto
termination
  by (relation "measure nat") auto

declare isqrt.simps [simp del]

definition round_sqrt :: "rat \<Rightarrow> rat" where
  \<comment> \<open>the square root of \<open>q > 0\<close>, correctly rounded to the binary64 grid\<close>
  "round_sqrt q =
     (let t = max (floor_log2 q div 2) (- 1022) - 52;
          x = q / pow2 (2 * t);
          m = isqrt \<lfloor>x\<rfloor>;
          h = of_int (m * m + m) + 1 / 4
      in of_int (if x < h then m else if h < x then m + 1
                 else if even m then m else m + 1) * pow2 t)"

fun dsqrt :: "double \<Rightarrow> double" where
  "dsqrt (NaN s) = NaN s"
| "dsqrt PosInf = PosInf"
| "dsqrt NegInf = NaN True"
| "dsqrt NegZero = NegZero"
| "dsqrt (Fin q) =
     (if q = 0 then Fin 0 else if q < 0 then NaN True else make_double False (round_sqrt q))"

definition double_of_size :: "nat \<Rightarrow> double" where
  \<comment> \<open>the conversion of a \<^verbatim>\<open>size_t\<close> to \<^verbatim>\<open>double\<close>\<close>
  "double_of_size n = (if n = 0 then Fin 0 else round_double (of_nat n))"

subsection \<open>Printing\<close>

text \<open>
  The report is written with \<^verbatim>\<open>fixed\<close> and \<^verbatim>\<open>setprecision(4)\<close>: the exact value
  rounded to four decimals, ties to even; a NaN is written as \<^verbatim>\<open>nan\<close>, or \<^verbatim>\<open>-nan\<close> when its
  sign bit is set. Counts are written in decimal.
\<close>

definition digit_char :: "nat \<Rightarrow> char" where
  "digit_char d = ''0123456789'' ! d"

fun string_of_nat :: "nat \<Rightarrow> string" where
  "string_of_nat n =
     (if n < 10 then [digit_char n] else string_of_nat (n div 10) @ [digit_char (n mod 10)])"

declare string_of_nat.simps [simp del]

definition string_of_int :: "int \<Rightarrow> string" where
  "string_of_int i = (if i < 0 then ''-'' @ string_of_nat (nat (- i)) else string_of_nat (nat i))"

definition fixed4 :: "rat \<Rightarrow> string" where
  "fixed4 a =
     (let n = nat (round_half_even (a * 10000));
          f = string_of_nat (n mod 10000)
      in string_of_nat (n div 10000) @ ''.'' @ take (4 - length f) ''0000'' @ f)"

fun show_double :: "double \<Rightarrow> string" where
  "show_double (NaN s) = (if s then ''-nan'' else ''nan'')"
| "show_double PosInf = ''inf''"
| "show_double NegInf = ''-inf''"
| "show_double NegZero = ''-0.0000''"
| "show_double (Fin q) = (if q < 0 then ''-'' else []) @ fixed4 \<bar>q\<bar>"

section \<open>Library routines\<close>

subsection \<open>Sorting and extrema\<close>

text \<open>
  \<^verbatim>\<open>std::sort\<close> is the introsort of libstdc++ on the array \<open>a\<close>, with ranges given by
  their first index and the index after their last: ranges of more than 16 elements are
  partitioned around the median of three elements, by heap sort once the depth limit is used
  up, and a pass of insertion sort over the whole array finishes the work. The comparison
  is \<^verbatim>\<open><\<close> on doubles. With a NaN in the array it is not a strict weak ordering and the C++
  standard leaves the result open; the model then does what these loops do as long as they
  stay inside the array. The loops that the library leaves unguarded stop at the ends of
  the array in the model.
\<close>

definition iter_swap :: "double list \<Rightarrow> nat \<Rightarrow> nat \<Rightarrow> double list" where
  "iter_swap a i j = a[i := a ! j, j := a ! i]"

paragraph \<open>Heap sort\<close>

function push_heap :: "double list \<Rightarrow> nat \<Rightarrow> nat \<Rightarrow> nat \<Rightarrow> double \<Rightarrow> double list" where
  "push_heap a first holeIndex topIndex v =
     (let parent = (holeIndex - 1) div 2
      in if holeIndex > topIndex \<and> dlt (a ! (first + parent)) v
         then push_heap (a[first + holeIndex := a ! (first + parent)]) first parent topIndex v
         else a[first + holeIndex := v])"
  by pat_completeness auto
termination
  by (relation "measure (\<lambda>(a, first, holeIndex, topIndex, v). holeIndex)") auto

declare push_heap.simps [simp del]

function adjust_heap_loop :: "double list \<Rightarrow> nat \<Rightarrow> nat \<Rightarrow> nat \<Rightarrow> double list \<times> nat" where
  \<comment> \<open>the first loop of \<^verbatim>\<open>__adjust_heap\<close>; the hole is at \<open>secondChild\<close> at its head\<close>
  "adjust_heap_loop a first len secondChild =
     (if secondChild < (len - 1) div 2 then
        let child = 2 * (secondChild + 1);
            child = (if dlt (a ! (first + child)) (a ! (first + (child - 1))) then child - 1
                     else child)
        in adjust_heap_loop (a[first + secondChild := a ! (first + child)]) first len child
      else (a, secondChild))"
  by pat_completeness auto
termination
  by (relation "measure (\<lambda>(a, first, len, secondChild). len - secondChild)") auto

declare adjust_heap_loop.simps [simp del]

definition adjust_heap :: "double list \<Rightarrow> nat \<Rightarrow> nat \<Rightarrow> nat \<Rightarrow> double \<Rightarrow> double list" where
  "adjust_heap a first holeIndex len v =
     (let topIndex = holeIndex;
          (a, secondChild) = adjust_heap_loop a first len holeIndex;
          (a, holeIndex) =
            (if len mod 2 = 0 \<and> secondChild = (len - 2) div 2
             then (a[first + secondChild := a ! (first + (2 * (secondChild + 1) - 1))],
                   2 * (secondChild + 1) - 1)
             else (a, secondChild))
      in push_heap a first holeIndex topIndex v)"

definition pop_heap :: "double list \<Rightarrow> nat \<Rightarrow> nat \<Rightarrow> nat \<Rightarrow> double list" where
  "pop_heap a first last' result =
     adjust_heap (a[result := a ! first]) first 0 (last' - first) (a ! result)"

fun make_heap_loop :: "double list \<Rightarrow> nat \<Rightarrow> nat \<Rightarrow> nat \<Rightarrow> double list" where
  "make_heap_loop a first len 0 = adjust_heap a first 0 len (a ! first)"
| "make_heap_loop a first len (Suc parent) =
     make_heap_loop (adjust_heap a first (Suc parent) len (a ! (first + Suc parent)))
       first len parent"

definition make_heap :: "double list \<Rightarrow> nat \<Rightarrow> nat \<Rightarrow> double list" where
  "make_heap a first last' =
     (if last' - first < 2 then a
      else make_heap_loop a first (last' - first) ((last' - first - 2) div 2))"

function heap_select_loop :: "double list \<Rightarrow> nat \<Rightarrow> nat \<Rightarrow> nat \<Rightarrow> nat \<Rightarrow> double list" where
  "heap_select_loop a first middle last' i =
     (if i < last'
      then heap_select_loop
             (if dlt (a ! i) (a ! first) then pop_heap a first middle i else a)
             first middle last' (i + 1)
      else a)"
  by pat_completeness auto
termination
  by (relation "measure (\<lambda>(a, first, middle, last', i). last' - i)") auto

declare heap_select_loop.simps [simp del]

definition heap_select :: "double list \<Rightarrow> nat \<Rightarrow> nat \<Rightarrow> nat \<Rightarrow> double list" where
  "heap_select a first middle last' =
     heap_select_loop (make_heap a first middle) first middle last' middle"

function sort_heap :: "double list \<Rightarrow> nat \<Rightarrow> nat \<Rightarrow> double list" where
  "sort_heap a first last' =
     (if last' - first > 1 then sort_heap (pop_heap a first (last' - 1) (last' - 1)) first (last' - 1)
      else a)"
  by pat_completeness auto
termination
  by (relation "measure (\<lambda>(a, first, last'). last')") auto

declare sort_heap.simps [simp del]

definition partial_sort :: "double list \<Rightarrow> nat \<Rightarrow> nat \<Rightarrow> nat \<Rightarrow> double list" where
  "partial_sort a first middle last' = sort_heap (heap_select a first middle last') first middle"

paragraph \<open>Partition\<close>

definition move_median_to_first ::
    "double list \<Rightarrow> nat \<Rightarrow> nat \<Rightarrow> nat \<Rightarrow> nat \<Rightarrow> double list" where
  "move_median_to_first a result ia ib ic =
     (if dlt (a ! ia) (a ! ib) then
        if dlt (a ! ib) (a ! ic) then iter_swap a result ib
        else if dlt (a ! ia) (a ! ic) then iter_swap a result ic
        else iter_swap a result ia
      else if dlt (a ! ia) (a ! ic) then iter_swap a result ia
      else if dlt (a ! ib) (a ! ic) then iter_swap a result ic
      else iter_swap a result ib)"

function scan_up :: "double list \<Rightarrow> nat \<Rightarrow> nat \<Rightarrow> nat" where
  \<comment> \<open>\<^verbatim>\<open>while (comp(first, pivot)) ++first\<close>\<close>
  "scan_up a pivot first =
     (if first < length a \<and> dlt (a ! first) (a ! pivot) then scan_up a pivot (first + 1)
      else first)"
  by pat_completeness auto
termination
  by (relation "measure (\<lambda>(a, pivot, first). length a - first)") auto

declare scan_up.simps [simp del]

function scan_down :: "double list \<Rightarrow> nat \<Rightarrow> nat \<Rightarrow> nat" where
  \<comment> \<open>\<^verbatim>\<open>while (comp(pivot, last)) --last\<close>\<close>
  "scan_down a pivot last' =
     (if 0 < last' \<and> dlt (a ! pivot) (a ! last') then scan_down a pivot (last' - 1) else last')"
  by pat_completeness auto
termination
  by (relation "measure (\<lambda>(a, pivot, last'). last')") auto

declare scan_down.simps [simp del]

function unguarded_partition :: "double list \<Rightarrow> nat \<Rightarrow> nat \<Rightarrow> nat \<Rightarrow> nat \<times> double list" where
  "unguarded_partition a first last' pivot =
     (let first = scan_up a pivot first;
          last' = scan_down a pivot (last' - 1)
      in if \<not> first < last' then (first, a)
         else unguarded_partition (iter_swap a first last') (first + 1) last' pivot)"
  by pat_completeness auto
termination
proof (relation "measure (\<lambda>(a, first, last', pivot). last')")
  show "wf (measure (\<lambda>(a, first, last', pivot). last'))"
    by simp
next
  fix a :: "double list" and first last' pivot x xa
  assume x: "x = scan_up a pivot first" "xa = scan_down a pivot (last' - 1)" "\<not> \<not> x < xa"
  have le: "scan_down a pivot l \<le> l" for l
  proof (induction a pivot l rule: scan_down.induct)
    case (1 a pivot l)
    show ?case
    proof (cases "0 < l \<and> dlt (a ! pivot) (a ! l)")
      case True
      then have "scan_down a pivot l = scan_down a pivot (l - 1)"
        by (subst scan_down.simps) simp
      with 1 True show ?thesis by fastforce
    next
      case False
      then show ?thesis by (subst scan_down.simps) auto
    qed
  qed
  have "xa < last'"
    using x le [of "last' - 1"] by linarith
  then show "((iter_swap a x xa, x + 1, xa, pivot), a, first, last', pivot)
      \<in> measure (\<lambda>(a, first, last', pivot). last')"
    by simp
qed

declare unguarded_partition.simps [simp del]

definition unguarded_partition_pivot :: "double list \<Rightarrow> nat \<Rightarrow> nat \<Rightarrow> nat \<times> double list" where
  "unguarded_partition_pivot a first last' =
     (let mid = first + (last' - first) div 2;
          a = move_median_to_first a first (first + 1) mid (last' - 1)
      in unguarded_partition a (first + 1) last' first)"

paragraph \<open>Introsort\<close>

fun introsort_loop :: "nat \<Rightarrow> double list \<Rightarrow> nat \<Rightarrow> nat \<Rightarrow> double list" where
  \<comment> \<open>the first argument is the depth limit\<close>
  "introsort_loop 0 a first last' =
     (if last' - first > 16 then partial_sort a first last' last' else a)"
| "introsort_loop (Suc depth_limit) a first last' =
     (if last' - first > 16 then
        let (cut, a) = unguarded_partition_pivot a first last';
            a = introsort_loop depth_limit a cut last'
        in introsort_loop depth_limit a first cut
      else a)"

fun unguarded_linear_insert :: "double \<Rightarrow> double list \<Rightarrow> double list" where
  \<comment> \<open>the second argument is the sorted range before the element, nearest first\<close>
  "unguarded_linear_insert v [] = [v]"
| "unguarded_linear_insert v (x # xs) =
     (if dlt v x then x # unguarded_linear_insert v xs else v # x # xs)"

definition insertion_step :: "double list \<Rightarrow> double \<Rightarrow> double list" where
  \<comment> \<open>one round of \<^verbatim>\<open>__insertion_sort\<close>: \<open>pre\<close> is the sorted range before the element \<open>v\<close>\<close>
  "insertion_step pre v =
     (case pre of
        [] \<Rightarrow> [v]
      | first # _ \<Rightarrow>
          if dlt v first then v # pre
          else rev (unguarded_linear_insert v (rev pre)))"

definition insertion_sort :: "double list \<Rightarrow> double list" where
  "insertion_sort xs = foldl insertion_step [] xs"

definition unguarded_insertion_sort :: "double list \<Rightarrow> double list \<Rightarrow> double list" where
  \<comment> \<open>\<open>pre\<close> is the sorted range before the elements \<open>xs\<close> that are still to insert\<close>
  "unguarded_insertion_sort pre xs =
     foldl (\<lambda>pre v. rev (unguarded_linear_insert v (rev pre))) pre xs"

definition final_insertion_sort :: "double list \<Rightarrow> double list" where
  "final_insertion_sort a =
     (if length a > 16 then unguarded_insertion_sort (insertion_sort (take 16 a)) (drop 16 a)
      else insertion_sort a)"

definition lg :: "nat \<Rightarrow> nat" where
  \<comment> \<open>\<^verbatim>\<open>std::__lg\<close>: the integer part of the binary logarithm\<close>
  "lg n = floorlog 2 n - 1"

definition std_sort :: "double list \<Rightarrow> double list" where
  "std_sort a =
     (if a = [] then a
      else final_insertion_sort (introsort_loop (lg (length a) * 2) a 0 (length a)))"

definition min_element :: "double list \<Rightarrow> double" where
  "min_element xs = foldl (\<lambda>m x. if dlt x m then x else m) (hd xs) (tl xs)"

definition max_element :: "double list \<Rightarrow> double" where
  "max_element xs = foldl (\<lambda>m x. if dlt m x then x else m) (hd xs) (tl xs)"

subsection \<open>Strings and streams\<close>

definition npos :: nat where
  "npos = 2 ^ 64 - 1"

definition find_first_not_of :: "string \<Rightarrow> string \<Rightarrow> nat" where
  "find_first_not_of s cs =
     (let k = length (takeWhile (\<lambda>c. c \<in> set cs) s) in if k = length s then npos else k)"

definition find_last_not_of :: "string \<Rightarrow> string \<Rightarrow> nat" where
  "find_last_not_of s cs =
     (let k = length (takeWhile (\<lambda>c. c \<in> set cs) (rev s))
      in if k = length s then npos else length s - 1 - k)"

definition substr :: "string \<Rightarrow> nat \<Rightarrow> nat \<Rightarrow> string" where
  "substr s pos n = take n (drop pos s)"

definition getline :: "string \<Rightarrow> (string \<times> string) option" where
  \<comment> \<open>reads up to the next comma of the rest of the stream; fails when nothing is left\<close>
  "getline ss =
     (if ss = [] then None
      else Some (takeWhile (\<lambda>c. c \<noteq> CHR '','') ss,
                 drop 1 (dropWhile (\<lambda>c. c \<noteq> CHR '','') ss)))"

subsection \<open>Converting text to a double\<close>

text \<open>
  \<^verbatim>\<open>std::stod\<close> calls \<^verbatim>\<open>strtod\<close>, which skips white space, reads an optional sign and
  then the longest prefix that is a decimal or hexadecimal floating constant, an infinity or
  a NaN; what follows the prefix is ignored. \<^verbatim>\<open>stod\<close> throws \<^verbatim>\<open>invalid_argument\<close>
  when there is no such prefix and \<^verbatim>\<open>out_of_range\<close> when \<^verbatim>\<open>strtod\<close> reports a range
  error: on overflow, and on a result that is tiny and not exact.
\<close>

definition isspace :: "char \<Rightarrow> bool" where
  "isspace c = (c \<in> set [CHR '' '', CHR 0x09, CHR 0x0A, CHR 0x0B, CHR 0x0C, CHR 0x0D])"

definition isdigit :: "char \<Rightarrow> bool" where
  "isdigit c = (48 \<le> (of_char c :: nat) \<and> (of_char c :: nat) \<le> 57)"

definition tolower :: "char \<Rightarrow> char" where
  "tolower c =
     (if 65 \<le> (of_char c :: nat) \<and> (of_char c :: nat) \<le> 90 then char_of (of_char c + 32 :: nat)
      else c)"

definition isxdigit :: "char \<Rightarrow> bool" where
  "isxdigit c =
     (isdigit c \<or> (97 \<le> (of_char (tolower c) :: nat) \<and> (of_char (tolower c) :: nat) \<le> 102))"

definition digit_value :: "char \<Rightarrow> nat" where
  "digit_value c = (if isdigit c then of_char c - 48 else of_char (tolower c) - 87)"

definition digits_value :: "nat \<Rightarrow> string \<Rightarrow> nat" where
  "digits_value base ds = foldl (\<lambda>a c. a * base + digit_value c) 0 ds"

definition pow10 :: "int \<Rightarrow> rat" where
  "pow10 k = 10 powi k"

definition starts_with_ci :: "string \<Rightarrow> string \<Rightarrow> bool" where
  "starts_with_ci p s = (map tolower (take (length p) s) = p)"

definition scan_mantissa :: "(char \<Rightarrow> bool) \<Rightarrow> string \<Rightarrow> (string \<times> string \<times> string) option" where
  \<comment> \<open>digits, an optional point and more digits, with a digit on one side at least\<close>
  "scan_mantissa isd s =
     (let ip = takeWhile isd s;
          r = dropWhile isd s;
          point = (r \<noteq> [] \<and> hd r = CHR ''.'');
          fp = (if point then takeWhile isd (tl r) else []);
          rest = (if point then dropWhile isd (tl r) else r)
      in if ip = [] \<and> fp = [] then None else Some (ip, fp, rest))"

definition scan_exponent :: "char \<Rightarrow> string \<Rightarrow> int" where
  \<comment> \<open>the exponent part after the mantissa; it counts only when a digit follows\<close>
  "scan_exponent marker s =
     (if s = [] \<or> tolower (hd s) \<noteq> marker then 0
      else
        let r = tl s;
            neg = (r \<noteq> [] \<and> hd r = CHR ''-'');
            r = (if r \<noteq> [] \<and> (hd r = CHR ''-'' \<or> hd r = CHR ''+'') then tl r else r);
            ds = takeWhile isdigit r
        in if ds = [] then 0
           else if neg then - int (digits_value 10 ds) else int (digits_value 10 ds))"

definition strtod_result :: "bool \<Rightarrow> rat \<Rightarrow> double \<times> bool" where
  \<comment> \<open>the value for a sign and an exact magnitude, and whether a range error is reported\<close>
  "strtod_result neg a =
     (if a = 0 then (if neg then NegZero else Fin 0, False)
      else
        let r = round_magnitude a
        in (make_double neg r,
            pow2 1024 \<le> r \<or> (round_unbounded a < pow2 (- 1022) \<and> r \<noteq> a)))"

definition strtod :: "string \<Rightarrow> (double \<times> bool) option" where
  "strtod str =
     (let s = dropWhile isspace str;
          neg = (s \<noteq> [] \<and> hd s = CHR ''-'');
          s = (if s \<noteq> [] \<and> (hd s = CHR ''-'' \<or> hd s = CHR ''+'') then tl s else s)
      in if starts_with_ci ''inf'' s then Some (if neg then NegInf else PosInf, False)
         else if starts_with_ci ''nan'' s then Some (NaN neg, False)
         else
           case (if starts_with_ci ''0x'' s then scan_mantissa isxdigit (drop 2 s) else None) of
             Some (ip, fp, rest) \<Rightarrow>
               Some (strtod_result neg
                 (of_nat (digits_value 16 (ip @ fp))
                    * pow2 (scan_exponent (CHR ''p'') rest - 4 * int (length fp))))
           | None \<Rightarrow>
               (case scan_mantissa isdigit s of
                  Some (ip, fp, rest) \<Rightarrow>
                    Some (strtod_result neg
                      (of_nat (digits_value 10 (ip @ fp))
                         * pow10 (scan_exponent (CHR ''e'') rest - int (length fp))))
                | None \<Rightarrow> None))"

datatype exn = invalid_argument | out_of_range

definition stod :: "string \<Rightarrow> exn + double" where
  "stod str =
     (case strtod str of
        None \<Rightarrow> Inl invalid_argument
      | Some (v, erange) \<Rightarrow> if erange then Inl out_of_range else Inr v)"

section \<open>The analyzer\<close>

text \<open>
  The class \<^verbatim>\<open>NumberAnalyzer\<close> holds the parsed numbers and the text of the parse errors.
  Its member functions are not \<^verbatim>\<open>const\<close>: each is modelled as a function from the
  object to its result and the object afterwards. Sizes and indices are \<^verbatim>\<open>size_t\<close>
  values, far below \<open>2 ^ 64\<close> for any vector that fits in memory, and the counters of type
  \<^verbatim>\<open>int\<close> never exceed the number of elements; both are modelled without wrap-around.
\<close>

record analyzer =
  numbers :: "double list"
  errors :: string

definition new_analyzer :: analyzer where
  \<comment> \<open>the object that the constructor builds\<close>
  "new_analyzer = \<lparr>numbers = [], errors = []\<rparr>"

subsection \<open>Parsing\<close>

definition parse_token :: "string \<Rightarrow> analyzer \<Rightarrow> analyzer" where
  \<comment> \<open>the body of the loop of \<^verbatim>\<open>parse\<close>\<close>
  "parse_token number st =
     (let start = find_first_not_of number [CHR '' '', CHR 0x09, CHR 0x0D, CHR 0x0A];
          endp = find_last_not_of number [CHR '' '', CHR 0x09, CHR 0x0D, CHR 0x0A];
          number =
            (if start \<noteq> npos then substr number start ((endp + 2 ^ 64 - start + 1) mod 2 ^ 64)
             else number)
      in case stod number of
           Inr num \<Rightarrow> st\<lparr>numbers := numbers st @ [num]\<rparr>
         | Inl invalid_argument \<Rightarrow>
             st\<lparr>errors := errors st @ ''Invalid number: '' @ number @ ''\<newline>''\<rparr>
         | Inl out_of_range \<Rightarrow>
             st\<lparr>errors := errors st @ ''Number out of range: '' @ number @ ''\<newline>''\<rparr>)"

function parse_loop :: "string \<Rightarrow> analyzer \<Rightarrow> analyzer" where
  "parse_loop ss st =
     (case getline ss of
        None \<Rightarrow> st
      | Some (number, ss') \<Rightarrow> parse_loop ss' (parse_token number st))"
  by pat_completeness auto
termination
proof (relation "measure (\<lambda>(ss, st). length ss)")
  show "wf (measure (\<lambda>(ss, st). length ss))"
    by simp
next
  fix ss :: string and st :: analyzer and x2 number ss'
  assume "getline ss = Some x2" and "(number, ss') = x2"
  then have ss: "ss \<noteq> []" and rest: "ss' = drop 1 (dropWhile (\<lambda>c. c \<noteq> CHR '','') ss)"
    by (auto simp: getline_def split: if_splits)
  have "length (dropWhile (\<lambda>c. c \<noteq> CHR '','') ss) \<le> length ss"
    by (rule length_dropWhile_le)
  with ss rest have "length ss' < length ss"
    by (cases "dropWhile (\<lambda>c. c \<noteq> CHR '','') ss") auto
  then show "((ss', parse_token number st), ss, st) \<in> measure (\<lambda>(ss, st). length ss)"
    by simp
qed

declare parse_loop.simps [simp del]

definition parse :: "string \<Rightarrow> analyzer \<Rightarrow> bool \<times> analyzer" where
  "parse input st = (let st = parse_loop input st in (numbers st \<noteq> [], st))"

subsection \<open>Statistics\<close>

definition calculateSum :: "analyzer \<Rightarrow> double \<times> analyzer" where
  "calculateSum st = (foldl (\<lambda>sum num. dadd sum num) (Fin 0) (numbers st), st)"

definition calculateAverage :: "analyzer \<Rightarrow> double \<times> analyzer" where
  "calculateAverage st =
     (if numbers st = [] then (Fin 0, st)
      else
        let (sum, st) = calculateSum st
        in (ddiv sum (double_of_size (length (numbers st))), st))"

definition calculateMedian :: "analyzer \<Rightarrow> double \<times> analyzer" where
  "calculateMedian st =
     (if numbers st = [] then (Fin 0, st)
      else
        let sorted = std_sort (numbers st);
            size = length sorted
        in if size mod 2 = 0
           then (ddiv (dadd (sorted ! (size div 2 - 1)) (sorted ! (size div 2))) (Fin 2), st)
           else (sorted ! (size div 2), st))"

definition calculateStdDev :: "analyzer \<Rightarrow> double \<times> analyzer" where
  "calculateStdDev st =
     (if numbers st = [] then (Fin 0, st)
      else
        let (avg, st) = calculateAverage st;
            sumSquareDiff =
              foldl (\<lambda>acc num. let diff = dsub num avg in dadd acc (dmul diff diff))
                (Fin 0) (numbers st)
        in (dsqrt (ddiv sumSquareDiff (double_of_size (length (numbers st)))), st))"

fun mode_loop :: "double list \<Rightarrow> double \<Rightarrow> double \<Rightarrow> int \<Rightarrow> int \<Rightarrow> double" where
  \<comment> \<open>the loop of \<^verbatim>\<open>findMode\<close> over \<^verbatim>\<open>sorted[i]\<close>, \<^verbatim>\<open>sorted[i + 1]\<close>, \<dots>; \<open>prev\<close> is \<^verbatim>\<open>sorted[i - 1]\<close>\<close>
  "mode_loop [] prev mode maxCount currentCount = mode"
| "mode_loop (x # rest) prev mode maxCount currentCount =
     (if deq x prev then
        if currentCount + 1 > maxCount
        then mode_loop rest x x (currentCount + 1) (currentCount + 1)
        else mode_loop rest x mode maxCount (currentCount + 1)
      else mode_loop rest x mode maxCount 1)"

definition findMode :: "analyzer \<Rightarrow> double \<times> analyzer" where
  "findMode st =
     (if numbers st = [] then (Fin 0, st)
      else
        let sorted = std_sort (numbers st)
        in (mode_loop (tl sorted) (sorted ! 0) (sorted ! 0) 1 1, st))"

definition calculateQuartiles :: "analyzer \<Rightarrow> double list \<times> analyzer" where
  "calculateQuartiles st =
     (if length (numbers st) < 4 then ([Fin 0, Fin 0, Fin 0], st)
      else
        let sorted = std_sort (numbers st);
            size = length sorted;
            q1_idx = size div 4;
            q2_idx = size div 2;
            q3_idx = (3 * size) div 4
        in ([sorted ! q1_idx, sorted ! q2_idx, sorted ! q3_idx], st))"

subsection \<open>The report\<close>

fun sign_loop :: "double list \<Rightarrow> int \<times> int \<times> int \<Rightarrow> int \<times> int \<times> int" where
  \<comment> \<open>the last loop of \<^verbatim>\<open>generateReport\<close>, on the positive, negative and zero counters\<close>
  "sign_loop [] counts = counts"
| "sign_loop (num # rest) (positiveCount, negativeCount, zeroCount) =
     sign_loop rest
       (if dgt num (Fin 0) then (positiveCount + 1, negativeCount, zeroCount)
        else if dlt num (Fin 0) then (positiveCount, negativeCount + 1, zeroCount)
        else (positiveCount, negativeCount, zeroCount + 1))"

definition generateReport :: "analyzer \<Rightarrow> string \<times> analyzer" where
  "generateReport st =
     (let report = ''Number Analysis Report\<newline>'' @ ''======================\<newline>\<newline>'';
          report =
            (if errors st \<noteq> [] then report @ ''Warnings/Errors:\<newline>'' @ errors st @ ''\<newline>''
             else report)
      in if numbers st = [] then (report @ ''Error: No valid numbers parsed\<newline>'', st)
         else
           let report = report @ ''Basic Statistics:\<newline>'';
               report = report @ ''  Count: '' @ string_of_nat (length (numbers st)) @ ''\<newline>'';
               (sum, st) = calculateSum st;
               report = report @ ''  Sum: '' @ show_double sum @ ''\<newline>'';
               (average, st) = calculateAverage st;
               report = report @ ''  Average: '' @ show_double average @ ''\<newline>'';
               (median, st) = calculateMedian st;
               report = report @ ''  Median: '' @ show_double median @ ''\<newline>'';
               (mode, st) = findMode st;
               report = report @ ''  Mode: '' @ show_double mode @ ''\<newline>\<newline>'';
               minVal = min_element (numbers st);
               maxVal = max_element (numbers st);
               report = report @ ''Range Statistics:\<newline>'';
               report = report @ ''  Minimum: '' @ show_double minVal @ ''\<newline>'';
               report = report @ ''  Maximum: '' @ show_double maxVal @ ''\<newline>'';
               report = report @ ''  Range: '' @ show_double (dsub maxVal minVal) @ ''\<newline>\<newline>'';
               report = report @ ''Dispersion Statistics:\<newline>'';
               (stdDev, st) = calculateStdDev st;
               report = report @ ''  Standard Deviation: '' @ show_double stdDev @ ''\<newline>'';
               (stdDev1, st) = calculateStdDev st;
               (stdDev2, st) = calculateStdDev st;
               report = report @ ''  Variance: '' @ show_double (dmul stdDev1 stdDev2) @ ''\<newline>\<newline>'';
               (quartiles, st) = calculateQuartiles st;
               report = report @ ''Quartile Analysis:\<newline>'';
               report = report @ ''  Q1 (25th percentile): '' @ show_double (quartiles ! 0) @ ''\<newline>'';
               report = report @ ''  Q2 (50th percentile): '' @ show_double (quartiles ! 1) @ ''\<newline>'';
               report = report @ ''  Q3 (75th percentile): '' @ show_double (quartiles ! 2) @ ''\<newline>'';
               report = report @ ''  IQR: '' @ show_double (dsub (quartiles ! 2) (quartiles ! 0))
                          @ ''\<newline>\<newline>'';
               (positiveCount, negativeCount, zeroCount) = sign_loop (numbers st) (0, 0, 0);
               report = report @ ''Sign Analysis:\<newline>'';
               report = report @ ''  Positive: '' @ string_of_int positiveCount @ ''\<newline>'';
               report = report @ ''  Negative: '' @ string_of_int negativeCount @ ''\<newline>'';
               report = report @ ''  Zero: '' @ string_of_int zeroCount @ ''\<newline>''
           in (report, st))"

definition getErrors :: "analyzer \<Rightarrow> string" where
  "getErrors st = errors st"

definition getCount :: "analyzer \<Rightarrow> nat" where
  "getCount st = length (numbers st)"

subsection \<open>The program\<close>



section \<open>Notions of the specification\<close>

text \<open>
  Two doubles carry the same value when they are identical or both are zeros: 
  \<open>-0.0\<close> and \<open>0.0\<close> compare equal and differ only in the printed sign.
\<close>

definition same_value :: "double \<Rightarrow> double \<Rightarrow> bool" where
  "same_value a b = (a = b \<or> (is_zero a \<and> is_zero b))"

fun is_finite :: "double \<Rightarrow> bool" where
  "is_finite (Fin q) = True"
| "is_finite NegZero = True"
| "is_finite _ = False"

text \<open>
  A sequence is ascending when no element is less than an element before it.
\<close>

definition ascending :: "double list \<Rightarrow> bool" where
  "ascending xs = sorted_wrt (\<lambda>a b. \<not> dlt b a) xs"

text \<open>
  The runs of a sequence: maximal stretches in which each element compares equal to the
  one before it. The mode of the specification is the value of the earliest run among
  those of the greatest length.
\<close>

fun runs :: "double list \<Rightarrow> double list list" where
  "runs [] = []"
| "runs [x] = [[x]]"
| "runs (x # y # ys) =
     (if deq y x then (case runs (y # ys) of r # rs \<Rightarrow> (x # r) # rs | [] \<Rightarrow> [[x]])
      else [x] # runs (y # ys))"

definition longest_run :: "double list list \<Rightarrow> nat" where
  "longest_run rs = foldr (\<lambda>r m. max (length r) m) rs 0"

definition first_longest_run :: "double list list \<Rightarrow> double list" where
  "first_longest_run rs = hd (filter (\<lambda>r. length r = longest_run rs) rs)"

definition mode_by_runs :: "double list \<Rightarrow> double" where
  "mode_by_runs xs = last (first_longest_run (runs xs))"

text \<open>
  Scanning the runs in order and keeping a run only when it is strictly longer than the
  best one so far: the pair is the last element and the length of the run kept.
\<close>

definition longer :: "double \<times> int \<Rightarrow> double list \<Rightarrow> double \<times> int" where
  "longer best r = (if int (length r) > snd best then (last r, int (length r)) else best)"

text \<open>
  The tokens that the loop of \<^verbatim>\<open>parse\<close> reads from the stream, and the fields of the
  input between its commas.
\<close>

function getline_all :: "string \<Rightarrow> string list" where
  "getline_all ss =
     (case getline ss of None \<Rightarrow> [] | Some (number, ss') \<Rightarrow> number # getline_all ss')"
  by pat_completeness auto
termination
proof (relation "measure length")
  show "wf (measure (length :: string \<Rightarrow> nat))"
    by simp
next
  fix ss :: string and x2 number ss'
  assume "getline ss = Some x2" and "(number, ss') = x2"
  then have ss: "ss \<noteq> []" and rest: "ss' = drop 1 (dropWhile (\<lambda>c. c \<noteq> CHR '','') ss)"
    by (auto simp: getline_def split: if_splits)
  have "length (dropWhile (\<lambda>c. c \<noteq> CHR '','') ss) \<le> length ss"
    by (rule length_dropWhile_le)
  with ss rest have "length ss' < length ss"
    by (cases "dropWhile (\<lambda>c. c \<noteq> CHR '','') ss") auto
  then show "(ss', ss) \<in> measure length"
    by simp
qed

declare getline_all.simps [simp del]

fun split_commas :: "string \<Rightarrow> string list" where
  "split_commas [] = [[]]"
| "split_commas (c # cs) =
     (if c = CHR '','' then [] # split_commas cs
      else (case split_commas cs of t # ts \<Rightarrow> (c # t) # ts | [] \<Rightarrow> [[c]]))"

definition drop_last_empty :: "string list \<Rightarrow> string list" where
  "drop_last_empty ts = (if ts \<noteq> [] \<and> last ts = [] then butlast ts else ts)"

text \<open>
  The sections of the report in their fixed order, each with the text that
  \<^verbatim>\<open>generateReport\<close> writes for it.
\<close>

definition report_header :: string where
  "report_header = ''Number Analysis Report\<newline>'' @ ''======================\<newline>\<newline>''"

definition warnings_section :: "analyzer \<Rightarrow> string" where
  "warnings_section st =
     (if errors st \<noteq> [] then ''Warnings/Errors:\<newline>'' @ errors st @ ''\<newline>'' else [])"

definition basic_section :: "analyzer \<Rightarrow> string" where
  "basic_section st =
     ''Basic Statistics:\<newline>''
     @ ''  Count: '' @ string_of_nat (length (numbers st)) @ ''\<newline>''
     @ ''  Sum: '' @ show_double (fst (calculateSum st)) @ ''\<newline>''
     @ ''  Average: '' @ show_double (fst (calculateAverage st)) @ ''\<newline>''
     @ ''  Median: '' @ show_double (fst (calculateMedian st)) @ ''\<newline>''
     @ ''  Mode: '' @ show_double (fst (findMode st)) @ ''\<newline>\<newline>''"

definition range_section :: "analyzer \<Rightarrow> string" where
  "range_section st =
     ''Range Statistics:\<newline>''
     @ ''  Minimum: '' @ show_double (min_element (numbers st)) @ ''\<newline>''
     @ ''  Maximum: '' @ show_double (max_element (numbers st)) @ ''\<newline>''
     @ ''  Range: '' @ show_double (dsub (max_element (numbers st)) (min_element (numbers st)))
     @ ''\<newline>\<newline>''"

definition dispersion_section :: "analyzer \<Rightarrow> string" where
  "dispersion_section st =
     ''Dispersion Statistics:\<newline>''
     @ ''  Standard Deviation: '' @ show_double (fst (calculateStdDev st)) @ ''\<newline>''
     @ ''  Variance: ''
     @ show_double (dmul (fst (calculateStdDev st)) (fst (calculateStdDev st)))
     @ ''\<newline>\<newline>''"

definition quartile_section :: "analyzer \<Rightarrow> string" where
  "quartile_section st =
     ''Quartile Analysis:\<newline>''
     @ ''  Q1 (25th percentile): '' @ show_double (fst (calculateQuartiles st) ! 0) @ ''\<newline>''
     @ ''  Q2 (50th percentile): '' @ show_double (fst (calculateQuartiles st) ! 1) @ ''\<newline>''
     @ ''  Q3 (75th percentile): '' @ show_double (fst (calculateQuartiles st) ! 2) @ ''\<newline>''
     @ ''  IQR: ''
     @ show_double (dsub (fst (calculateQuartiles st) ! 2) (fst (calculateQuartiles st) ! 0))
     @ ''\<newline>\<newline>''"

definition sign_section :: "analyzer \<Rightarrow> string" where
  "sign_section st =
     ''Sign Analysis:\<newline>''
     @ ''  Positive: '' @ string_of_int (fst (sign_loop (numbers st) (0, 0, 0))) @ ''\<newline>''
     @ ''  Negative: '' @ string_of_int (fst (snd (sign_loop (numbers st) (0, 0, 0)))) @ ''\<newline>''
     @ ''  Zero: '' @ string_of_int (snd (snd (sign_loop (numbers st) (0, 0, 0)))) @ ''\<newline>''"

text \<open>The object that parsing the six values \<^verbatim>\<open>4,8,15,16,23,42\<close> leaves.\<close>

definition six_values :: analyzer where
  "six_values = \<lparr>numbers = [Fin 4, Fin 8, Fin 15, Fin 16, Fin 23, Fin 42], errors = []\<rparr>"

section \<open>Properties\<close>

subsection \<open>Rounding\<close>

lemma pow2_pos [simp]: "0 < pow2 k"
  by (simp add: pow2_def)

lemma pow2_nonzero [simp]: "pow2 k \<noteq> 0"
  by (simp add: pow2_def)

lemma pow2_abs [simp]: "\<bar>pow2 k\<bar> = pow2 k"
  by (simp add: abs_of_pos)

lemma pow2_add: "pow2 (j + k) = pow2 j * pow2 k"
  by (simp add: pow2_def power_int_add)

lemma pow2_mono: "j \<le> k \<Longrightarrow> pow2 j \<le> pow2 k"
  by (simp add: pow2_def power_int_increasing)

lemma pow2_less_imp: "pow2 j < pow2 k \<Longrightarrow> j < k"
  using pow2_mono [of k j] by (cases "j < k") auto

lemma pow2_nat: "pow2 (int n) = 2 ^ n"
  by (simp add: pow2_def)

lemma floor_log2_bounds:
  assumes "0 < a"
  shows "pow2 (floor_log2 a) \<le> a" and "a < pow2 (floor_log2 a + 1)"
proof -
  show "pow2 (floor_log2 a) \<le> a"
  proof (cases "1 \<le> a")
    case True
    then have n: "0 < \<lfloor>a\<rfloor>" by simp
    from bitlen_bounds [OF n] have "2 ^ nat (bitlen \<lfloor>a\<rfloor> - 1) \<le> \<lfloor>a\<rfloor>" by simp
    then have "(of_int (2 ^ nat (bitlen \<lfloor>a\<rfloor> - 1)) :: rat) \<le> of_int \<lfloor>a\<rfloor>"
      by (simp only: of_int_le_iff)
    also have "\<dots> \<le> a" by simp
    finally have "(2 :: rat) ^ nat (bitlen \<lfloor>a\<rfloor> - 1) \<le> a" by simp
    moreover have "0 \<le> bitlen \<lfloor>a\<rfloor> - 1"
      using n bitlen_eq_zero_iff [of "\<lfloor>a\<rfloor>"] bitlen_nonneg [of "\<lfloor>a\<rfloor>"] by linarith
    ultimately show ?thesis
      using True by (simp add: floor_log2_def pow2_def power_int_nonneg_exp)
  next
    case False
    define c where "c = \<lceil>1 / a\<rceil>"
    from False assms have "1 < 1 / a" by simp
    then have c: "1 < c" unfolding c_def by (simp add: less_ceiling_iff)
    then have c1: "0 < c - 1" by simp
    from bitlen_bounds [OF c1] have "c - 1 < 2 ^ nat (bitlen (c - 1))" by simp
    then have "c \<le> 2 ^ nat (bitlen (c - 1))" by simp
    then have "(of_int c :: rat) \<le> 2 ^ nat (bitlen (c - 1))"
      by simp
    moreover have "1 / a \<le> of_int c" unfolding c_def by simp
    ultimately have "1 / a \<le> 2 ^ nat (bitlen (c - 1))" by linarith
    then have "1 / 2 ^ nat (bitlen (c - 1)) \<le> a"
      using assms by (simp add: field_simps)
    moreover have "pow2 (- bitlen (c - 1)) = 1 / 2 ^ nat (bitlen (c - 1))"
      using bitlen_nonneg [of "c - 1"]
      by (simp add: pow2_def power_int_minus_divide power_int_nonneg_exp)
    ultimately show ?thesis
      using False by (simp add: floor_log2_def c_def)
  qed
  show "a < pow2 (floor_log2 a + 1)"
  proof (cases "1 \<le> a")
    case True
    then have n: "0 < \<lfloor>a\<rfloor>" by simp
    from bitlen_bounds [OF n] have "\<lfloor>a\<rfloor> + 1 \<le> 2 ^ nat (bitlen \<lfloor>a\<rfloor>)" by simp
    then have "(of_int (\<lfloor>a\<rfloor> + 1) :: rat) \<le> of_int (2 ^ nat (bitlen \<lfloor>a\<rfloor>))"
      by (simp only: of_int_le_iff)
    moreover have "a < of_int (\<lfloor>a\<rfloor> + 1)" by linarith
    ultimately have "a < 2 ^ nat (bitlen \<lfloor>a\<rfloor>)" by simp
    then show ?thesis
      using True bitlen_nonneg [of "\<lfloor>a\<rfloor>"]
      by (simp add: floor_log2_def pow2_def power_int_nonneg_exp)
  next
    case False
    define c where "c = \<lceil>1 / a\<rceil>"
    from False assms have "1 < 1 / a" by simp
    then have c: "1 < c" unfolding c_def by (simp add: less_ceiling_iff)
    then have c1: "0 < c - 1" by simp
    have k: "1 \<le> bitlen (c - 1)"
      using c1 bitlen_eq_zero_iff [of "c - 1"] bitlen_nonneg [of "c - 1"] by linarith
    from bitlen_bounds [OF c1] have "2 ^ nat (bitlen (c - 1) - 1) \<le> c - 1" by simp
    then have "(of_int (2 ^ nat (bitlen (c - 1) - 1)) :: rat) \<le> of_int (c - 1)"
      by (simp only: of_int_le_iff)
    moreover have "of_int (c - 1) < 1 / a" unfolding c_def by linarith
    ultimately have "2 ^ nat (bitlen (c - 1) - 1) < 1 / a" by simp
    then have "a < 1 / 2 ^ nat (bitlen (c - 1) - 1)"
      using assms by (simp add: field_simps)
    moreover have "pow2 (- bitlen (c - 1) + 1) = 1 / 2 ^ nat (bitlen (c - 1) - 1)"
    proof -
      have "- bitlen (c - 1) + 1 = - (bitlen (c - 1) - 1)" by simp
      then show ?thesis
        using k by (simp only: pow2_def power_int_minus_divide) (simp add: power_int_nonneg_exp)
    qed
    ultimately show ?thesis
      using False by (simp add: floor_log2_def c_def)
  qed
qed

lemma floor_log2_eq:
  assumes "pow2 e \<le> a" and "a < pow2 (e + 1)"
  shows "floor_log2 a = e"
proof -
  have a: "0 < a" using assms(1) pow2_pos [of e] by linarith
  note b = floor_log2_bounds [OF a]
  have "pow2 e < pow2 (floor_log2 a + 1)" using assms(1) b(2) by linarith
  then have "e < floor_log2 a + 1" by (rule pow2_less_imp)
  moreover have "pow2 (floor_log2 a) < pow2 (e + 1)" using assms(2) b(1) by linarith
  then have "floor_log2 a < e + 1" by (rule pow2_less_imp)
  ultimately show ?thesis by simp
qed

lemma round_half_even_of_int [simp]: "round_half_even (of_int n) = n"
  by (simp add: round_half_even_def)

lemma round_half_even_nonneg: "0 \<le> x \<Longrightarrow> 0 \<le> round_half_even x"
  by (auto simp: round_half_even_def Let_def)

lemma round_half_even_mono_int:
  assumes "of_int n \<le> x"
  shows "n \<le> round_half_even x"
proof -
  have "n \<le> \<lfloor>x\<rfloor>" using assms by (simp add: le_floor_iff)
  then show ?thesis by (auto simp: round_half_even_def Let_def)
qed

lemma round_half_even_le_int:
  assumes "x \<le> of_int n"
  shows "round_half_even x \<le> n"
proof (cases "x = of_int n")
  case True
  then show ?thesis by simp
next
  case False
  with assms have "x < of_int n" by simp
  then have "\<lfloor>x\<rfloor> < n" by (simp add: floor_less_iff)
  then show ?thesis by (auto simp: round_half_even_def Let_def)
qed

lemma round_magnitude_exact:
  assumes m: "0 < m" "m < 2 ^ 53" and t: "- 1074 \<le> t"
  shows "round_magnitude (of_int m * pow2 t) = of_int m * pow2 t"
proof -
  define a where "a = (of_int m :: rat) * pow2 t"
  define T where "T = max (floor_log2 a) (- 1022) - 52"
  have a: "0 < a" using m by (simp add: a_def)
  have "pow2 (floor_log2 a) \<le> a" using floor_log2_bounds(1) [OF a] .
  also have "a < 2 ^ 53 * pow2 t"
  proof -
    have "(of_int m :: rat) < 2 ^ 53" using m(2) by simp
    then show ?thesis unfolding a_def by simp
  qed
  also have "\<dots> = pow2 (53 + t)" using pow2_add [of 53 t] by (simp add: pow2_def)
  finally have "floor_log2 a < 53 + t" by (rule pow2_less_imp)
  then have T: "T \<le> t" using t by (simp add: T_def)
  then obtain d where d: "t = T + int d"
    by (metis add.commute nonneg_int_cases diff_ge_0_iff_ge diff_add_cancel)
  have "a / pow2 T = of_int (m * 2 ^ d)"
    by (simp add: a_def d pow2_add pow2_nat)
  then have "of_int (round_half_even (a / pow2 T)) * pow2 T = a"
    by (simp only: round_half_even_of_int) (simp add: a_def d pow2_add pow2_nat)
  then show ?thesis
    by (simp add: round_magnitude_def Let_def a_def [symmetric] T_def [symmetric])
qed

lemma round_double_exact:
  assumes "m \<noteq> 0" "\<bar>m\<bar> < 2 ^ 53" "- 1074 \<le> t" "\<bar>of_int m * pow2 t\<bar> < pow2 1024"
  shows "round_double (of_int m * pow2 t) = Fin (of_int m * pow2 t)"
proof -
  have abs: "\<bar>(of_int m :: rat) * pow2 t\<bar> = of_int \<bar>m\<bar> * pow2 t"
    by (simp add: abs_mult)
  have r: "round_magnitude \<bar>of_int m * pow2 t\<bar> = \<bar>of_int m * pow2 t\<bar>"
    unfolding abs using assms by (intro round_magnitude_exact) auto
  have nz: "(of_int m :: rat) * pow2 t \<noteq> 0"
    using assms(1) pow2_pos [of t] by simp
  show ?thesis
    using assms(4) nz by (auto simp: round_double_def r make_double_def)
qed

lemma round_double_int:
  assumes "n \<noteq> 0" "\<bar>n\<bar> < 2 ^ 53"
  shows "round_double (of_int n) = Fin (of_int n)"
proof -
  have "\<bar>(of_int n :: rat)\<bar> < 2 ^ 53"
    using assms(2) by (metis of_int_abs of_int_less_numeral_power_cancel_iff)
  also have "\<dots> < pow2 1024" by (simp add: pow2_def)
  finally show ?thesis
    using round_double_exact [of n 0] assms by (simp add: pow2_def)
qed

subsection \<open>Sign counts\<close>

lemma dgt_dlt_exclusive: "dgt x (Fin 0) \<Longrightarrow> \<not> dlt x (Fin 0)"
  by (auto simp: dgt_def dlt_def)

lemma sign_loop_counts:
  "sign_loop ns (p, n, z) =
     (p + int (length (filter (\<lambda>num. dgt num (Fin 0)) ns)),
      n + int (length (filter (\<lambda>num. dlt num (Fin 0)) ns)),
      z + int (length (filter (\<lambda>num. \<not> dgt num (Fin 0) \<and> \<not> dlt num (Fin 0)) ns)))"
  by (induction ns arbitrary: p n z) (auto dest: dgt_dlt_exclusive)

lemma sign_filters_partition:
  "length (filter (\<lambda>num. dgt num (Fin 0)) ns) + length (filter (\<lambda>num. dlt num (Fin 0)) ns)
     + length (filter (\<lambda>num. \<not> dgt num (Fin 0) \<and> \<not> dlt num (Fin 0)) ns) = length ns"
  by (induction ns) (auto dest: dgt_dlt_exclusive)

subsection \<open>The statistics leave the object as it is\<close>

lemma snd_calculateSum: "snd (calculateSum st) = st"
  by (simp add: calculateSum_def)

lemma snd_calculateAverage: "snd (calculateAverage st) = st"
  by (simp add: calculateAverage_def calculateSum_def)

lemma snd_calculateMedian: "snd (calculateMedian st) = st"
  by (simp add: calculateMedian_def Let_def)

lemma snd_calculateStdDev: "snd (calculateStdDev st) = st"
  by (simp add: calculateStdDev_def split_def Let_def snd_calculateAverage)

lemma snd_findMode: "snd (findMode st) = st"
  by (simp add: findMode_def Let_def)

lemma snd_calculateQuartiles: "snd (calculateQuartiles st) = st"
  by (simp add: calculateQuartiles_def Let_def)

lemmas report_unfold =
  split_def Let_def snd_calculateSum snd_calculateAverage snd_calculateMedian
  snd_calculateStdDev snd_findMode snd_calculateQuartiles fst_conv snd_conv append_assoc
  if_False if_True append_Nil append_Nil2 simp_thms

lemma snd_generateReport: "snd (generateReport st) = st"
  unfolding generateReport_def
  by (simp only: report_unfold split: if_split)

lemma report_sections:
  assumes "numbers st \<noteq> []"
  shows "fst (generateReport st) =
     report_header @ warnings_section st @ basic_section st @ range_section st
     @ dispersion_section st @ quartile_section st @ sign_section st"
proof (cases "errors st = []")
  case True
  with assms show ?thesis
    unfolding generateReport_def report_header_def warnings_section_def basic_section_def
      range_section_def dispersion_section_def quartile_section_def sign_section_def
    by (simp only: report_unfold)
next
  case False
  with assms show ?thesis
    unfolding generateReport_def report_header_def warnings_section_def basic_section_def
      range_section_def dispersion_section_def quartile_section_def sign_section_def
    by (simp only: report_unfold)
qed

lemma report_without_numbers:
  "numbers st = [] \<Longrightarrow>
   fst (generateReport st) =
     report_header @ warnings_section st @ ''Error: No valid numbers parsed\<newline>''"
  by (simp add: generateReport_def Let_def report_header_def warnings_section_def)

text \<open>
  Claim C8. Once parsing is over, the numbers and the error log stay as they are: every
  statistics function and the report generation return the object unchanged, so a second
  report generated from the object left by the first one is the same text.
\<close>

theorem statistics_and_report_leave_state:
  "snd (calculateSum st) = st
   \<and> snd (calculateAverage st) = st
   \<and> snd (calculateMedian st) = st
   \<and> snd (calculateStdDev st) = st
   \<and> snd (findMode st) = st
   \<and> snd (calculateQuartiles st) = st
   \<and> snd (generateReport st) = st
   \<and> getErrors (snd (generateReport st)) = errors st
   \<and> getCount (snd (generateReport st)) = length (numbers st)
   \<and> fst (generateReport (snd (generateReport st))) = fst (generateReport st)"
  by (simp add: snd_calculateSum snd_calculateAverage snd_calculateMedian snd_calculateStdDev
      snd_findMode snd_calculateQuartiles snd_generateReport getErrors_def getCount_def)

text \<open>
  Claim C9. The sign loop puts each value in exactly one of its three counters, so the
  three counts add up to the number of values. The zero counter takes every value that is
  neither greater than zero nor less than zero; a NaN of either sign, which \<^verbatim>\<open>stod\<close> returns
  for the tokens \<^verbatim>\<open>nan\<close> and \<^verbatim>\<open>-nan\<close>, is such a value.
\<close>

theorem sign_counts_partition:
  "(case sign_loop ns (0, 0, 0) of
      (positiveCount, negativeCount, zeroCount) \<Rightarrow>
        positiveCount + negativeCount + zeroCount = int (length ns)
        \<and> positiveCount = int (length (filter (\<lambda>num. dgt num (Fin 0)) ns))
        \<and> negativeCount = int (length (filter (\<lambda>num. dlt num (Fin 0)) ns))
        \<and> zeroCount = int (length (filter (\<lambda>num. \<not> dgt num (Fin 0) \<and> \<not> dlt num (Fin 0)) ns)))
   \<and> stod ''nan'' = Inr (NaN False) \<and> stod ''-nan'' = Inr (NaN True)
   \<and> \<not> dgt (NaN s) (Fin 0) \<and> \<not> dlt (NaN s) (Fin 0)
   \<and> sign_loop [NaN s] (0, 0, 0) = (0, 0, 1)"
proof -
  have "int (length (filter (\<lambda>num. dgt num (Fin 0)) ns))
          + int (length (filter (\<lambda>num. dlt num (Fin 0)) ns))
          + int (length (filter (\<lambda>num. \<not> dgt num (Fin 0) \<and> \<not> dlt num (Fin 0)) ns))
        = int (length ns)"
    using sign_filters_partition [of ns] by linarith
  moreover have "stod ''nan'' = Inr (NaN False)" and "stod ''-nan'' = Inr (NaN True)"
    by (simp_all add: stod_def strtod_def starts_with_ci_def isspace_def tolower_def)
  moreover have "\<not> dgt (NaN s) (Fin 0)" and "\<not> dlt (NaN s) (Fin 0)"
    by (simp_all add: dgt_def dlt_def)
  ultimately show ?thesis
    by (simp add: sign_loop_counts)
qed

subsection \<open>Sorting\<close>

lemma length_iter_swap [simp]: "length (iter_swap a i j) = length a"
  by (simp add: iter_swap_def)

lemma mset_iter_swap:
  "i < length a \<Longrightarrow> j < length a \<Longrightarrow> mset (iter_swap a i j) = mset a"
  unfolding iter_swap_def by (rule mset_swap)

lemma mset_update_two:
  assumes "p < length a" "h < length a"
  shows "mset (a[h := a ! p, p := v]) = mset (a[h := v])"
proof (cases "p = h")
  case True
  then show ?thesis by simp
next
  case False
  define b where "b = a[h := v]"
  have "a[h := a ! p, p := v] = b[p := b ! h, h := b ! p]"
    using False assms by (simp add: b_def list_eq_iff_nth_eq nth_list_update)
  moreover have "mset (b[p := b ! h, h := b ! p]) = mset b"
    using assms by (intro mset_swap) (simp_all add: b_def)
  ultimately show ?thesis by (simp add: b_def)
qed

lemma length_push_heap [simp]: "length (push_heap a first holeIndex topIndex v) = length a"
proof (induction a first holeIndex topIndex v rule: push_heap.induct)
  case (1 a first holeIndex topIndex v)
  then show ?case by (subst push_heap.simps) (simp add: Let_def)
qed

lemma mset_push_heap:
  "first + holeIndex < length a \<Longrightarrow>
   mset (push_heap a first holeIndex topIndex v) = mset (a[first + holeIndex := v])"
proof (induction a first holeIndex topIndex v rule: push_heap.induct)
  case (1 a first holeIndex topIndex v)
  define parent where "parent = (holeIndex - 1) div 2"
  have p: "first + parent < length a" "parent \<le> holeIndex"
    using "1.prems" by (auto simp: parent_def)
  show ?case
  proof (cases "holeIndex > topIndex \<and> dlt (a ! (first + parent)) v")
    case True
    then have "push_heap a first holeIndex topIndex v
        = push_heap (a[first + holeIndex := a ! (first + parent)]) first parent topIndex v"
      by (subst push_heap.simps) (simp add: Let_def parent_def)
    also have "mset \<dots> = mset (a[first + holeIndex := a ! (first + parent), first + parent := v])"
      using True p by (intro "1.IH") (simp_all add: parent_def)
    also have "\<dots> = mset (a[first + holeIndex := v])"
      using p "1.prems" by (intro mset_update_two) simp_all
    finally show ?thesis .
  next
    case False
    then show ?thesis by (subst push_heap.simps) (auto simp: Let_def parent_def)
  qed
qed

lemma adjust_heap_loop_props:
  assumes "first + len \<le> length a" "secondChild < len"
    and "adjust_heap_loop a first len secondChild = (a', hole)"
  shows "length a' = length a \<and> hole < len
    \<and> mset (a'[first + hole := v]) = mset (a[first + secondChild := v])"
  using assms
proof (induction a first len secondChild arbitrary: a' hole rule: adjust_heap_loop.induct)
  case (1 a first len secondChild)
  show ?case
  proof (cases "secondChild < (len - 1) div 2")
    case True
    define child where "child = (if dlt (a ! (first + 2 * (secondChild + 1)))
        (a ! (first + (2 * (secondChild + 1) - 1))) then 2 * (secondChild + 1) - 1
        else 2 * (secondChild + 1))"
    have c: "child < len" using True by (auto simp: child_def)
    have eq: "adjust_heap_loop (a[first + secondChild := a ! (first + child)]) first len child
        = (a', hole)"
      using "1.prems"(3) True
      by (subst (asm) adjust_heap_loop.simps)
         (cases "dlt (a ! (first + 2 * (secondChild + 1))) (a ! (first + (2 * (secondChild + 1) - 1)))";
          simp add: Let_def child_def)
    have ih: "length a' = length (a[first + secondChild := a ! (first + child)]) \<and> hole < len
        \<and> mset (a'[first + hole := v])
          = mset (a[first + secondChild := a ! (first + child), first + child := v])"
      using True "1.prems"(1) c eq
      by (intro "1.IH" [where x = "2 * (secondChild + 1)" and xa = child])
         (simp_all add: child_def)
    have "mset (a[first + secondChild := a ! (first + child), first + child := v])
        = mset (a[first + secondChild := v])"
      using c "1.prems"(1,2) by (intro mset_update_two) simp_all
    with ih show ?thesis by simp
  next
    case False
    then have "adjust_heap_loop a first len secondChild = (a, secondChild)"
      by (subst adjust_heap_loop.simps) simp
    with "1.prems" show ?thesis by simp
  qed
qed

lemma adjust_heap_props:
  assumes "first + len \<le> length a" "holeIndex < len"
  shows "length (adjust_heap a first holeIndex len v) = length a"
    and "mset (adjust_heap a first holeIndex len v) = mset (a[first + holeIndex := v])"
proof -
  obtain a' hole where l: "adjust_heap_loop a first len holeIndex = (a', hole)"
    by (cases "adjust_heap_loop a first len holeIndex") auto
  note p = adjust_heap_loop_props [OF assms l, of v]
  show "length (adjust_heap a first holeIndex len v) = length a"
    using p by (simp add: adjust_heap_def l Let_def)
  show "mset (adjust_heap a first holeIndex len v) = mset (a[first + holeIndex := v])"
  proof (cases "len mod 2 = 0 \<and> hole = (len - 2) div 2")
    case True
    have "hole < len" using p by simp
    with True have c: "2 * (hole + 1) - 1 < len" by presburger
    have "adjust_heap a first holeIndex len v
        = push_heap (a'[first + hole := a' ! (first + (2 * (hole + 1) - 1))]) first
            (2 * (hole + 1) - 1) holeIndex v"
      using True by (simp add: adjust_heap_def l Let_def)
    also have "mset \<dots>
        = mset (a'[first + hole := a' ! (first + (2 * (hole + 1) - 1)),
                   first + (2 * (hole + 1) - 1) := v])"
      using c p assms(1) by (intro mset_push_heap) simp
    also have "\<dots> = mset (a'[first + hole := v])"
      using c p assms(1) by (intro mset_update_two) simp_all
    finally show ?thesis using p by simp
  next
    case False
    then have "adjust_heap a first holeIndex len v = push_heap a' first hole holeIndex v"
      by (auto simp: adjust_heap_def l Let_def)
    also have "mset \<dots> = mset (a'[first + hole := v])"
      using p assms(1) by (intro mset_push_heap) simp
    finally show ?thesis using p by simp
  qed
qed

lemma pop_heap_props:
  assumes "first < last'" "last' \<le> length a" "result < length a"
  shows "length (pop_heap a first last' result) = length a"
    and "mset (pop_heap a first last' result) = mset a"
proof -
  have b: "first + (last' - first) \<le> length (a[result := a ! first])" "0 < last' - first"
    using assms by simp_all
  show "length (pop_heap a first last' result) = length a"
    using adjust_heap_props(1) [OF b] by (simp add: pop_heap_def)
  have "mset (pop_heap a first last' result) = mset (a[result := a ! first, first := a ! result])"
    using adjust_heap_props(2) [OF b] by (simp add: pop_heap_def)
  also have "\<dots> = mset a"
    using assms by (intro mset_swap) simp_all
  finally show "mset (pop_heap a first last' result) = mset a" .
qed

lemma make_heap_loop_props:
  assumes "first + len \<le> length a" "parent < len"
  shows "length (make_heap_loop a first len parent) = length a
    \<and> mset (make_heap_loop a first len parent) = mset a"
  using assms
proof (induction parent arbitrary: a)
  case 0
  then show ?case
    using adjust_heap_props [of first len a 0 "a ! first"] by simp
next
  case (Suc parent)
  have "length (adjust_heap a first (Suc parent) len (a ! (first + Suc parent))) = length a"
    and "mset (adjust_heap a first (Suc parent) len (a ! (first + Suc parent))) = mset a"
    using adjust_heap_props [of first len a "Suc parent" "a ! (first + Suc parent)"] Suc.prems
    by simp_all
  with Suc show ?case by simp
qed

lemma make_heap_props:
  assumes "first \<le> last'" "last' \<le> length a"
  shows "length (make_heap a first last') = length a \<and> mset (make_heap a first last') = mset a"
proof (cases "last' - first < 2")
  case True
  then show ?thesis by (simp add: make_heap_def)
next
  case False
  then have "(last' - first - 2) div 2 < last' - first" by simp
  moreover have "first + (last' - first) \<le> length a" using assms by simp
  ultimately show ?thesis
    using False make_heap_loop_props [of first "last' - first" a "(last' - first - 2) div 2"]
    by (simp add: make_heap_def)
qed

lemma heap_select_loop_props:
  assumes "first < middle" "middle \<le> length a" "last' \<le> length a"
  shows "length (heap_select_loop a first middle last' i) = length a
    \<and> mset (heap_select_loop a first middle last' i) = mset a"
  using assms
proof (induction a first middle last' i rule: heap_select_loop.induct)
  case (1 a first middle last' i)
  show ?case
  proof (cases "i < last'")
    case True
    define a1 where "a1 = (if dlt (a ! i) (a ! first) then pop_heap a first middle i else a)"
    have a1: "length a1 = length a" "mset a1 = mset a"
      using pop_heap_props [of first middle a i] "1.prems" True by (auto simp: a1_def)
    have "heap_select_loop a first middle last' i = heap_select_loop a1 first middle last' (i + 1)"
      using True by (subst heap_select_loop.simps) (simp add: a1_def)
    moreover have "length (heap_select_loop a1 first middle last' (i + 1)) = length a1
        \<and> mset (heap_select_loop a1 first middle last' (i + 1)) = mset a1"
      using True "1.prems" a1 unfolding a1_def by (intro "1.IH") (simp_all add: a1_def)
    ultimately show ?thesis using a1 by simp
  next
    case False
    then show ?thesis by (subst (1 2) heap_select_loop.simps) simp
  qed
qed

lemma sort_heap_props:
  assumes "last' \<le> length a"
  shows "length (sort_heap a first last') = length a \<and> mset (sort_heap a first last') = mset a"
  using assms
proof (induction a first last' rule: sort_heap.induct)
  case (1 a first last')
  show ?case
  proof (cases "last' - first > 1")
    case True
    define a1 where "a1 = pop_heap a first (last' - 1) (last' - 1)"
    have a1: "length a1 = length a" "mset a1 = mset a"
      using pop_heap_props [of first "last' - 1" a "last' - 1"] "1.prems" True
      by (auto simp: a1_def)
    have "sort_heap a first last' = sort_heap a1 first (last' - 1)"
      using True by (subst sort_heap.simps) (simp add: a1_def)
    moreover have "length (sort_heap a1 first (last' - 1)) = length a1
        \<and> mset (sort_heap a1 first (last' - 1)) = mset a1"
      using True "1.prems" a1 unfolding a1_def by (intro "1.IH") (simp_all add: a1_def)
    ultimately show ?thesis using a1 by simp
  next
    case False
    then show ?thesis by (subst (1 2) sort_heap.simps) simp
  qed
qed

lemma partial_sort_props:
  assumes "first < middle" "middle \<le> last'" "last' \<le> length a"
  shows "length (partial_sort a first middle last') = length a
    \<and> mset (partial_sort a first middle last') = mset a"
proof -
  have m: "length (make_heap a first middle) = length a \<and> mset (make_heap a first middle) = mset a"
    using assms by (intro make_heap_props) simp_all
  have h: "length (heap_select a first middle last') = length a
      \<and> mset (heap_select a first middle last') = mset a"
    using heap_select_loop_props [of first middle "make_heap a first middle" last' middle] assms m
    by (simp add: heap_select_def)
  show ?thesis
    using sort_heap_props [of middle "heap_select a first middle last'" first] assms h
    by (simp add: partial_sort_def)
qed

lemma move_median_to_first_props:
  assumes "result < length a" "ia < length a" "ib < length a" "ic < length a"
  shows "length (move_median_to_first a result ia ib ic) = length a
    \<and> mset (move_median_to_first a result ia ib ic) = mset a"
  using assms by (simp add: move_median_to_first_def mset_iter_swap)

lemma scan_down_le: "scan_down a pivot last' \<le> last'"
proof (induction a pivot last' rule: scan_down.induct)
  case (1 a pivot last')
  show ?case
  proof (cases "0 < last' \<and> dlt (a ! pivot) (a ! last')")
    case True
    then have "scan_down a pivot last' = scan_down a pivot (last' - 1)"
      by (subst scan_down.simps) simp
    with 1 True show ?thesis by fastforce
  next
    case False
    then show ?thesis by (subst scan_down.simps) auto
  qed
qed

lemma scan_up_le: "first \<le> length a \<Longrightarrow> scan_up a pivot first \<le> length a"
proof (induction a pivot first rule: scan_up.induct)
  case (1 a pivot first)
  show ?case
  proof (cases "first < length a \<and> dlt (a ! first) (a ! pivot)")
    case True
    then have "scan_up a pivot first = scan_up a pivot (first + 1)"
      by (subst scan_up.simps) simp
    with 1 True show ?thesis by simp
  next
    case False
    with "1.prems" show ?thesis by (subst scan_up.simps) auto
  qed
qed

lemma unguarded_partition_props:
  assumes "first \<le> length a" "last' \<le> length a"
    and "unguarded_partition a first last' pivot = (cutp, a')"
  shows "length a' = length a \<and> mset a' = mset a \<and> cutp \<le> length a"
  using assms
proof (induction a first last' pivot arbitrary: cutp a' rule: unguarded_partition.induct)
  case (1 a first last' pivot)
  define f where "f = scan_up a pivot first"
  define l where "l = scan_down a pivot (last' - 1)"
  have f: "f \<le> length a" unfolding f_def using "1.prems"(1) by (rule scan_up_le)
  have l: "l \<le> last' - 1" unfolding l_def by (rule scan_down_le)
  show ?case
  proof (cases "f < l")
    case True
    have fl: "f < length a" "l < length a" using True l "1.prems"(2) by auto
    have eq: "unguarded_partition (iter_swap a f l) (f + 1) l pivot = (cutp, a')"
      using "1.prems"(3) True
      by (subst (asm) unguarded_partition.simps) (simp add: Let_def f_def l_def)
    have "length a' = length (iter_swap a f l) \<and> mset a' = mset (iter_swap a f l)
        \<and> cutp \<le> length (iter_swap a f l)"
      using True fl eq by (intro "1.IH" [where x = f and xa = l]) (simp_all add: f_def l_def)
    then show ?thesis using fl by (simp add: mset_iter_swap)
  next
    case False
    then have "unguarded_partition a first last' pivot = (f, a)"
      by (subst unguarded_partition.simps) (simp add: Let_def f_def l_def)
    with "1.prems"(3) f show ?thesis by simp
  qed
qed

lemma unguarded_partition_pivot_props:
  assumes "last' - first > 16" "last' \<le> length a"
    and "unguarded_partition_pivot a first last' = (cutp, a')"
  shows "length a' = length a \<and> mset a' = mset a \<and> cutp \<le> length a"
proof -
  define a1 where
    "a1 = move_median_to_first a first (first + 1) (first + (last' - first) div 2) (last' - 1)"
  have a1: "length a1 = length a \<and> mset a1 = mset a"
    unfolding a1_def using assms(1,2) by (intro move_median_to_first_props) auto
  have "unguarded_partition a1 (first + 1) last' first = (cutp, a')"
    using assms(3) by (simp add: unguarded_partition_pivot_def Let_def a1_def)
  then have "length a' = length a1 \<and> mset a' = mset a1 \<and> cutp \<le> length a1"
    using assms(1,2) a1 by (intro unguarded_partition_props) auto
  with a1 show ?thesis by simp
qed

lemma introsort_loop_props:
  "last' \<le> length a \<Longrightarrow>
   length (introsort_loop depth_limit a first last') = length a
   \<and> mset (introsort_loop depth_limit a first last') = mset a"
proof (induction depth_limit arbitrary: a first last')
  case 0
  then show ?case
    using partial_sort_props [of first last' last' a] by auto
next
  case (Suc depth_limit)
  show ?case
  proof (cases "last' - first > 16")
    case True
    obtain cutp a1 where p: "unguarded_partition_pivot a first last' = (cutp, a1)"
      by (cases "unguarded_partition_pivot a first last'") auto
    have a1: "length a1 = length a" "mset a1 = mset a" "cutp \<le> length a"
      using unguarded_partition_pivot_props [OF True Suc.prems p] by simp_all
    define a2 where "a2 = introsort_loop depth_limit a1 cutp last'"
    have a2: "length a2 = length a1 \<and> mset a2 = mset a1"
      unfolding a2_def using Suc.prems a1 by (intro Suc.IH) simp
    have "length (introsort_loop depth_limit a2 first cutp) = length a2
        \<and> mset (introsort_loop depth_limit a2 first cutp) = mset a2"
      using a1 a2 by (intro Suc.IH) simp
    moreover have "introsort_loop (Suc depth_limit) a first last'
        = introsort_loop depth_limit a2 first cutp"
      using True by (simp add: p a2_def)
    ultimately show ?thesis using a1 a2 by simp
  next
    case False
    then show ?thesis by simp
  qed
qed

lemma mset_unguarded_linear_insert:
  "mset (unguarded_linear_insert v xs) = add_mset v (mset xs)"
  by (induction xs) auto

lemma mset_insertion_step: "mset (insertion_step pre v) = add_mset v (mset pre)"
  by (auto simp: insertion_step_def mset_unguarded_linear_insert split: list.splits)

lemma mset_foldl_insertion_step:
  "mset (foldl insertion_step acc xs) = mset acc + mset xs"
  by (induction xs arbitrary: acc) (auto simp: mset_insertion_step)

lemma mset_insertion_sort: "mset (insertion_sort xs) = mset xs"
  by (simp add: insertion_sort_def mset_foldl_insertion_step)

lemma mset_unguarded_insertion_sort:
  "mset (unguarded_insertion_sort pre xs) = mset pre + mset xs"
  unfolding unguarded_insertion_sort_def
  by (induction xs arbitrary: pre) (auto simp: mset_unguarded_linear_insert)

lemma mset_final_insertion_sort: "mset (final_insertion_sort a) = mset a"
proof -
  have "mset (take 16 a) + mset (drop 16 a) = mset a"
    by (metis append_take_drop_id mset_append)
  then show ?thesis
    by (simp add: final_insertion_sort_def mset_insertion_sort mset_unguarded_insertion_sort)
qed

lemma mset_std_sort: "mset (std_sort xs) = mset xs"
  using introsort_loop_props [of "length xs" xs "lg (length xs) * 2" 0]
  by (simp add: std_sort_def mset_final_insertion_sort)

lemma length_std_sort: "length (std_sort xs) = length xs"
  using mset_std_sort [of xs] by (metis size_mset)

lemma set_std_sort: "set (std_sort xs) = set xs"
  using mset_std_sort [of xs] by (metis set_mset_mset)

lemma std_sort_short: "length xs \<le> 16 \<Longrightarrow> std_sort xs = insertion_sort xs"
  by (cases "lg (length xs) * 2")
     (auto simp: std_sort_def final_insertion_sort_def insertion_sort_def)

lemma dlt_position: "\<not> is_nan a \<Longrightarrow> \<not> is_nan b \<Longrightarrow> dlt a b \<longleftrightarrow> position a < position b"
  by (simp add: dlt_def)

lemma sorted_unguarded_linear_insert:
  assumes "\<not> is_nan v" "\<forall>x \<in> set xs. \<not> is_nan x" "sorted (rev (map position xs))"
  shows "sorted (rev (map position (unguarded_linear_insert v xs)))"
  using assms
proof (induction xs)
  case Nil
  then show ?case by simp
next
  case (Cons x xs)
  show ?case
  proof (cases "dlt v x")
    case True
    then have vx: "position v < position x" using Cons.prems by (simp add: dlt_position)
    have ih: "sorted (rev (map position (unguarded_linear_insert v xs)))"
      using Cons by (simp add: sorted_append)
    have "\<forall>p \<in> set (map position (unguarded_linear_insert v xs)). p \<le> position x"
    proof -
      have "set (unguarded_linear_insert v xs) = insert v (set xs)"
        using mset_unguarded_linear_insert [of v xs] by (metis set_mset_add_mset_insert set_mset_mset)
      then show ?thesis using vx Cons.prems(3) by (auto simp: sorted_append)
    qed
    with ih True show ?thesis by (auto simp: sorted_append)
  next
    case False
    then have "position x \<le> position v" using Cons.prems by (simp add: dlt_position)
    with False Cons.prems show ?thesis by (auto simp: sorted_append intro: order_trans)
  qed
qed

lemma sorted_insertion_step:
  assumes "\<not> is_nan v" "\<forall>x \<in> set pre. \<not> is_nan x" "sorted (map position pre)"
  shows "sorted (map position (insertion_step pre v))"
proof (cases pre)
  case Nil
  then show ?thesis by (simp add: insertion_step_def)
next
  case (Cons first rest)
  show ?thesis
  proof (cases "dlt v first")
    case True
    then have "position v < position first" using assms Cons by (simp add: dlt_position)
    with True assms Cons show ?thesis by (auto simp: insertion_step_def intro: order_trans less_imp_le)
  next
    case False
    have "sorted (rev (map position (unguarded_linear_insert v (rev pre))))"
      using assms by (intro sorted_unguarded_linear_insert) (auto simp: rev_map)
    with False Cons show ?thesis by (simp add: insertion_step_def rev_map)
  qed
qed

lemma sorted_foldl_insertion_step:
  assumes "\<forall>x \<in> set xs. \<not> is_nan x" "\<forall>x \<in> set acc. \<not> is_nan x" "sorted (map position acc)"
  shows "sorted (map position (foldl insertion_step acc xs))
    \<and> (\<forall>x \<in> set (foldl insertion_step acc xs). \<not> is_nan x)"
  using assms
proof (induction xs arbitrary: acc)
  case Nil
  then show ?case by simp
next
  case (Cons x xs)
  have "set (insertion_step acc x) = insert x (set acc)"
    using mset_insertion_step [of acc x] by (metis set_mset_add_mset_insert set_mset_mset)
  then have n: "\<forall>y \<in> set (insertion_step acc x). \<not> is_nan y"
    using Cons.prems by auto
  have s: "sorted (map position (insertion_step acc x))"
    using Cons.prems by (intro sorted_insertion_step) simp_all
  have "sorted (map position (foldl insertion_step (insertion_step acc x) xs))
    \<and> (\<forall>y \<in> set (foldl insertion_step (insertion_step acc x) xs). \<not> is_nan y)"
    using Cons.prems(1) n s by (intro Cons.IH) simp_all
  then show ?case by simp
qed

lemma sorted_unguarded_insertion_sort:
  assumes "\<forall>x \<in> set xs. \<not> is_nan x" "\<forall>x \<in> set pre. \<not> is_nan x" "sorted (map position pre)"
  shows "sorted (map position (unguarded_insertion_sort pre xs))"
  using assms unfolding unguarded_insertion_sort_def
proof (induction xs arbitrary: pre)
  case Nil
  then show ?case by simp
next
  case (Cons x xs)
  define pre' where "pre' = rev (unguarded_linear_insert x (rev pre))"
  have s: "sorted (map position pre')"
    using sorted_unguarded_linear_insert [of x "rev pre"] Cons.prems
    by (simp add: pre'_def rev_map)
  have "set pre' = insert x (set pre)"
    using mset_unguarded_linear_insert [of x "rev pre"]
    by (metis pre'_def mset_rev set_mset_add_mset_insert set_mset_mset)
  then have n: "\<forall>x \<in> set pre'. \<not> is_nan x" using Cons.prems by auto
  have "sorted (map position
      (foldl (\<lambda>pre v. rev (unguarded_linear_insert v (rev pre))) pre' xs))"
    using Cons.prems(1) n s by (intro Cons.IH) simp_all
  then show ?case by (simp add: pre'_def)
qed

lemma sorted_final_insertion_sort:
  assumes "\<forall>x \<in> set a. \<not> is_nan x"
  shows "sorted (map position (final_insertion_sort a))"
proof (cases "length a > 16")
  case True
  have t: "\<forall>x \<in> set (take 16 a). \<not> is_nan x" and d: "\<forall>x \<in> set (drop 16 a). \<not> is_nan x"
    using assms by (auto dest: in_set_takeD in_set_dropD)
  have "sorted (map position (insertion_sort (take 16 a)))
      \<and> (\<forall>x \<in> set (insertion_sort (take 16 a)). \<not> is_nan x)"
    unfolding insertion_sort_def using t by (intro sorted_foldl_insertion_step) simp_all
  then show ?thesis
    using True d by (simp add: final_insertion_sort_def sorted_unguarded_insertion_sort)
next
  case False
  have "sorted (map position (insertion_sort a))"
    unfolding insertion_sort_def using assms sorted_foldl_insertion_step [of a "[]"] by simp
  with False show ?thesis by (simp add: final_insertion_sort_def)
qed

lemma sorted_std_sort:
  assumes "\<forall>x \<in> set xs. \<not> is_nan x"
  shows "sorted (map position (std_sort xs))"
proof (cases "xs = []")
  case True
  then show ?thesis by (simp add: std_sort_def)
next
  case False
  define a where "a = introsort_loop (lg (length xs) * 2) xs 0 (length xs)"
  have "mset a = mset xs"
    unfolding a_def using introsort_loop_props [of "length xs" xs] by simp
  then have "set a = set xs" by (metis set_mset_mset)
  then have "sorted (map position (final_insertion_sort a))"
    using assms by (intro sorted_final_insertion_sort) simp
  then show ?thesis using False by (simp add: std_sort_def a_def)
qed

lemma positions_std_sort:
  assumes "\<forall>x \<in> set xs. \<not> is_nan x"
  shows "map position (std_sort xs) = sort (map position xs)"
proof -
  have "mset (map position (std_sort xs)) = mset (map position xs)"
    by (simp add: mset_std_sort)
  then show ?thesis
    using sorted_std_sort [OF assms] by (metis properties_for_sort)
qed

lemma positions_std_sort_perm:
  assumes "\<forall>x \<in> set xs. \<not> is_nan x" "mset ys = mset xs"
  shows "map position (std_sort ys) = map position (std_sort xs)"
proof -
  have ys: "\<forall>x \<in> set ys. \<not> is_nan x"
    using assms by (metis set_mset_mset)
  have "mset (map position ys) = mset (map position xs)"
    using assms(2) by simp
  then have "sort (map position ys) = sort (map position xs)"
    by (metis properties_for_sort sorted_sort mset_sort)
  then show ?thesis
    by (simp add: positions_std_sort assms(1) ys)
qed

lemma same_value_position:
  "\<not> is_nan a \<Longrightarrow> \<not> is_nan b \<Longrightarrow> position a = position b \<Longrightarrow> same_value a b"
  by (cases a; cases b) (auto simp: same_value_def)

lemma same_value_refl [simp]: "same_value a a"
  by (simp add: same_value_def)

lemma same_value_cases:
  assumes "same_value a b"
  shows "is_nan a = is_nan b" "is_inf a = is_inf b" "is_zero a = is_zero b"
    "rat_of a = rat_of b" "\<not> is_zero a \<Longrightarrow> a = b"
  using assms by (cases a; cases b; auto simp: same_value_def)+

lemma same_value_dadd:
  assumes "same_value a a'" "same_value b b'"
  shows "same_value (dadd a b) (dadd a' b')"
  using assms
  by (cases a; cases a'; cases b; cases b') (auto simp: same_value_def dadd_def)

lemma same_value_ddiv_two:
  assumes "same_value a a'"
  shows "same_value (ddiv a (Fin 2)) (ddiv a' (Fin 2))"
  using assms
  by (cases a; cases a') (auto simp: same_value_def ddiv_def)

subsection \<open>Conversions of tokens\<close>

lemma strtod_result_exact:
  assumes "0 < m" "m < 2 ^ 53" "- 1074 \<le> t" "of_int m * pow2 t < pow2 1024"
  shows "strtod_result neg (of_int m * pow2 t)
         = (Fin (if neg then - (of_int m * pow2 t) else of_int m * pow2 t), False)"
proof -
  have r: "round_magnitude (of_int m * pow2 t) = of_int m * pow2 t"
    using assms by (intro round_magnitude_exact) auto
  have nz: "(of_int m :: rat) * pow2 t \<noteq> 0" using assms(1) by simp
  show ?thesis
    using assms(4) nz by (auto simp: strtod_result_def Let_def r make_double_def)
qed

lemma strtod_result_int:
  assumes "0 < n" "n < 2 ^ 53"
  shows "strtod_result neg (of_int n) = (Fin (if neg then - of_int n else of_int n), False)"
proof -
  have "(of_int n :: rat) < 2 ^ 53" using assms(2) by simp
  also have "\<dots> < pow2 1024" by (simp add: pow2_def)
  finally show ?thesis
    using strtod_result_exact [of n 0 neg] assms by (simp add: pow2_def)
qed

lemmas scan_simps =
  stod_def strtod_def scan_mantissa_def scan_exponent_def starts_with_ci_def isspace_def
  isdigit_def isxdigit_def tolower_def digit_value_def digits_value_def pow10_def Let_def

lemma stod_1: "stod ''1'' = Inr (Fin 1)"
  using strtod_result_int [of 1 False] by (simp add: scan_simps)

lemma stod_12abc: "stod ''12abc'' = Inr (Fin 12)"
  using strtod_result_int [of 12 False] by (simp add: scan_simps)

lemma stod_abc: "stod ''abc'' = Inl invalid_argument"
  by (simp add: scan_simps)

lemma stod_empty: "stod '''' = Inl invalid_argument"
  by (simp add: scan_simps)

lemmas token_simps =
  parse_token_def find_first_not_of_def find_last_not_of_def substr_def npos_def Let_def

lemmas parse_simps = parse_def parse_loop.simps getline_def token_simps new_analyzer_def

lemma fixed4_eval:
  assumes "round_half_even (a * 10000) = int n"
  shows "fixed4 a = string_of_nat (n div 10000) @ ''.''
           @ take (4 - length (string_of_nat (n mod 10000))) ''0000'' @ string_of_nat (n mod 10000)"
  using assms by (simp add: fixed4_def Let_def)

lemma round_half_even_numeral [simp]: "round_half_even (numeral k) = numeral k"
  using round_half_even_of_int [of "numeral k"] by simp

lemmas show_simps = string_of_nat.simps digit_char_def

lemma stod_small:
  "stod ''1'' = Inr (Fin 1)" "stod ''2'' = Inr (Fin 2)" "stod ''3'' = Inr (Fin 3)"
  "stod ''abc'' = Inl invalid_argument" "stod ''nan'' = Inr (NaN False)"
  using strtod_result_int [of 1 False] strtod_result_int [of 2 False]
    strtod_result_int [of 3 False]
  by (simp_all add: scan_simps)

subsection \<open>The six values of the example\<close>

lemma stod_digit:
  "stod ''4'' = Inr (Fin 4)" "stod ''8'' = Inr (Fin 8)" "stod ''15'' = Inr (Fin 15)"
  "stod ''16'' = Inr (Fin 16)" "stod ''23'' = Inr (Fin 23)" "stod ''42'' = Inr (Fin 42)"
  using strtod_result_int [of 4 False] strtod_result_int [of 8 False]
    strtod_result_int [of 15 False] strtod_result_int [of 16 False]
    strtod_result_int [of 23 False] strtod_result_int [of 42 False]
  by (simp_all add: scan_simps)

lemma parse_six: "parse ''4,8,15,16,23,42'' new_analyzer = (True, six_values)"
  by (simp add: parse_simps stod_digit six_values_def)

lemma sort_six:
  "std_sort [Fin 4, Fin 8, Fin 15, Fin 16, Fin 23, Fin 42]
   = [Fin 4, Fin 8, Fin 15, Fin 16, Fin 23, Fin 42]"
  by (simp add: std_sort_short insertion_sort_def insertion_step_def dlt_def)

lemma round_six:
  "round_double 4 = Fin 4" "round_double 12 = Fin 12" "round_double 27 = Fin 27"
  "round_double 43 = Fin 43" "round_double 66 = Fin 66" "round_double 108 = Fin 108"
  "round_double 6 = Fin 6" "round_double 18 = Fin 18" "round_double 31 = Fin 31"
  "round_double (31 / 2) = Fin (31 / 2)" "round_double 15 = Fin 15"
  using round_double_int [of 4] round_double_int [of 12] round_double_int [of 27]
    round_double_int [of 43] round_double_int [of 66] round_double_int [of 108]
    round_double_int [of 6] round_double_int [of 18] round_double_int [of 31]
    round_double_exact [of 31 "- 1"] round_double_int [of 15]
  by (simp_all add: pow2_def)

lemma sum_six: "fst (calculateSum six_values) = Fin 108"
  by (simp add: calculateSum_def six_values_def dadd_def round_six)

lemma average_six: "fst (calculateAverage six_values) = Fin 18"
  by (simp add: calculateAverage_def calculateSum_def six_values_def double_of_size_def
      ddiv_def dadd_def round_six)

lemma median_six: "fst (calculateMedian six_values) = Fin (31 / 2)"
  by (simp add: calculateMedian_def six_values_def sort_six dadd_def ddiv_def round_six)

lemma mode_six: "fst (findMode six_values) = Fin 4"
  by (simp add: findMode_def six_values_def sort_six deq_def)

lemma quartiles_six: "fst (calculateQuartiles six_values) = [Fin 8, Fin 16, Fin 23]"
  by (simp add: calculateQuartiles_def six_values_def sort_six)

lemma count_six: "string_of_nat (length (numbers six_values)) = ''6''"
  by (simp add: six_values_def string_of_nat.simps digit_char_def)

lemma show_six:
  "show_double (Fin 108) = ''108.0000''" "show_double (Fin 18) = ''18.0000''"
  "show_double (Fin (31 / 2)) = ''15.5000''" "show_double (Fin 4) = ''4.0000''"
  "show_double (Fin 8) = ''8.0000''" "show_double (Fin 16) = ''16.0000''"
  "show_double (Fin 23) = ''23.0000''" "show_double (Fin 15) = ''15.0000''"
  by (simp_all add: fixed4_eval [of 108 1080000] fixed4_eval [of 18 180000]
      fixed4_eval [of "31 / 2" 155000] fixed4_eval [of 4 40000] fixed4_eval [of 8 80000]
      fixed4_eval [of 16 160000] fixed4_eval [of 23 230000] fixed4_eval [of 15 150000]
      show_simps)

lemma basic_section_six:
  "basic_section six_values =
     ''Basic Statistics:\<newline>  Count: 6\<newline>  Sum: 108.0000\<newline>  Average: 18.0000\<newline>  Median: 15.5000\<newline>  Mode: 4.0000\<newline>\<newline>''"
  by (simp add: basic_section_def sum_six average_six median_six mode_six count_six show_six
      del: show_double.simps)

lemma quartile_section_six:
  "quartile_section six_values =
     ''Quartile Analysis:\<newline>  Q1 (25th percentile): 8.0000\<newline>  Q2 (50th percentile): 16.0000\<newline>  Q3 (75th percentile): 23.0000\<newline>  IQR: 15.0000\<newline>\<newline>''"
  by (simp add: quartile_section_def quartiles_six dsub_def dadd_def round_six show_six
      del: show_double.simps)

text \<open>
  Claim C10. For the six values 4, 8, 15, 16, 23, 42, an even count of at least four, the
  median is 15.5, the mean of the two middle values, while the second quartile is 16, the
  sorted element at index 3; the report prints the one in its basic statistics and the
  other in its quartile analysis.
\<close>

theorem median_differs_from_second_quartile:
  "parse ''4,8,15,16,23,42'' new_analyzer = (True, six_values)
   \<and> even (length (numbers six_values)) \<and> 4 \<le> length (numbers six_values)
   \<and> fst (calculateMedian six_values) = Fin (31 / 2)
   \<and> fst (calculateQuartiles six_values) ! 1 = Fin 16
   \<and> fst (calculateMedian six_values) \<noteq> fst (calculateQuartiles six_values) ! 1
   \<and> fst (generateReport six_values) =
        report_header @ warnings_section six_values @ basic_section six_values
        @ range_section six_values @ dispersion_section six_values
        @ quartile_section six_values @ sign_section six_values
   \<and> basic_section six_values =
        ''Basic Statistics:\<newline>  Count: 6\<newline>  Sum: 108.0000\<newline>  Average: 18.0000\<newline>  Median: 15.5000\<newline>  Mode: 4.0000\<newline>\<newline>''
   \<and> quartile_section six_values =
        ''Quartile Analysis:\<newline>  Q1 (25th percentile): 8.0000\<newline>  Q2 (50th percentile): 16.0000\<newline>  Q3 (75th percentile): 23.0000\<newline>  IQR: 15.0000\<newline>\<newline>''"
proof -
  have "numbers six_values \<noteq> []" by (simp add: six_values_def)
  then have "fst (generateReport six_values) =
        report_header @ warnings_section six_values @ basic_section six_values
        @ range_section six_values @ dispersion_section six_values
        @ quartile_section six_values @ sign_section six_values"
    by (rule report_sections)
  moreover have "length (numbers six_values) = 6" by (simp add: six_values_def)
  ultimately show ?thesis
    by (simp add: parse_six median_six quartiles_six basic_section_six quartile_section_six)
qed

subsection \<open>The median\<close>

lemma std_sort_nth_same_value:
  assumes "\<forall>x \<in> set xs. \<not> is_nan x" "mset ys = mset xs" "i < length xs"
  shows "same_value (std_sort ys ! i) (std_sort xs ! i)"
proof -
  have len: "length (std_sort ys) = length xs" "length (std_sort xs) = length xs"
    using assms(2) by (simp_all add: length_std_sort) (metis size_mset)
  have "map position (std_sort ys) ! i = map position (std_sort xs) ! i"
    using positions_std_sort_perm [OF assms(1,2)] by simp
  then have pos: "position (std_sort ys ! i) = position (std_sort xs ! i)"
    using len assms(3) by simp
  have "std_sort ys ! i \<in> set ys" "std_sort xs ! i \<in> set xs"
    using len assms(3) by (metis nth_mem set_std_sort)+
  moreover have "set ys = set xs" using assms(2) by (metis set_mset_mset)
  ultimately have "\<not> is_nan (std_sort ys ! i)" "\<not> is_nan (std_sort xs ! i)"
    using assms(1) by auto
  then show ?thesis using pos by (rule same_value_position)
qed

text \<open>
  Claim C7, as the code has it. The median is the middle element of the sorted copy, or
  for an even count the sum of the two middle elements divided by two. When no number is
  a NaN, any reordering of the numbers leaves the median with the same value; only the
  sign of a zero median can depend on the order.
\<close>

theorem median_same_for_permutations:
  assumes "numbers st \<noteq> []"
    and "mset (numbers st') = mset (numbers st)"
    and "\<forall>x \<in> set (numbers st). \<not> is_nan x"
  shows "same_value (fst (calculateMedian st')) (fst (calculateMedian st))
    \<and> fst (calculateMedian st) =
        (let s = std_sort (numbers st); n = length (numbers st)
         in if even n then ddiv (dadd (s ! (n div 2 - 1)) (s ! (n div 2))) (Fin 2)
            else s ! (n div 2))"
proof
  show "fst (calculateMedian st) =
        (let s = std_sort (numbers st); n = length (numbers st)
         in if even n then ddiv (dadd (s ! (n div 2 - 1)) (s ! (n div 2))) (Fin 2)
            else s ! (n div 2))"
    using assms(1) by (simp add: calculateMedian_def Let_def length_std_sort even_iff_mod_2_eq_zero)
next

  define n where "n = length (numbers st)"
  have n: "0 < n" using assms(1) by (simp add: n_def)
  have len': "length (numbers st') = n"
    using assms(2) unfolding n_def by (metis size_mset)
  then have ne': "numbers st' \<noteq> []" using n by auto
  have nth: "same_value (std_sort (numbers st') ! i) (std_sort (numbers st) ! i)" if "i < n" for i
    using std_sort_nth_same_value [OF assms(3,2)] that by (simp add: n_def)
  show "same_value (fst (calculateMedian st')) (fst (calculateMedian st))"
  proof (cases "n mod 2 = 0")
    case True
    then have "n div 2 - 1 < n" "n div 2 < n" using n by auto
    then have "same_value
        (ddiv (dadd (std_sort (numbers st') ! (n div 2 - 1)) (std_sort (numbers st') ! (n div 2))) (Fin 2))
        (ddiv (dadd (std_sort (numbers st) ! (n div 2 - 1)) (std_sort (numbers st) ! (n div 2))) (Fin 2))"
      by (intro same_value_ddiv_two same_value_dadd nth)
    with True assms(1) ne' show ?thesis
      by (simp add: calculateMedian_def Let_def length_std_sort len' n_def [symmetric])
  next
    case False
    have "n div 2 < n" using n by auto
    then have "same_value (std_sort (numbers st') ! (n div 2)) (std_sort (numbers st) ! (n div 2))"
      by (rule nth)
    with False assms(1) ne' show ?thesis
      by (simp add: calculateMedian_def Let_def length_std_sort len' n_def [symmetric])
  qed
qed

lemma sort_nan_first: "std_sort [NaN False, Fin 1, Fin 2] = [NaN False, Fin 1, Fin 2]"
  by (simp add: std_sort_short insertion_sort_def insertion_step_def dlt_def)

lemma sort_nan_middle: "std_sort [Fin 2, NaN False, Fin 1] = [Fin 1, Fin 2, NaN False]"
  by (simp add: std_sort_short insertion_sort_def insertion_step_def dlt_def)

lemma parse_nan_1_2:
  "parse ''nan,1,2'' new_analyzer = (True, \<lparr>numbers = [NaN False, Fin 1, Fin 2], errors = []\<rparr>)"
  by (simp add: parse_simps stod_small)

lemma parse_2_nan_1:
  "parse ''2,nan,1'' new_analyzer = (True, \<lparr>numbers = [Fin 2, NaN False, Fin 1], errors = []\<rparr>)"
  by (simp add: parse_simps stod_small)

text \<open>
  Claim C7 as stated fails when a number is a NaN: the arguments \<^verbatim>\<open>nan,1,2\<close> and
  \<^verbatim>\<open>2,nan,1\<close> hold the same numbers in two orders, and the medians are 1 and 2.
\<close>

theorem median_changes_with_nan:
  "parse ''nan,1,2'' new_analyzer = (True, \<lparr>numbers = [NaN False, Fin 1, Fin 2], errors = []\<rparr>)
   \<and> parse ''2,nan,1'' new_analyzer = (True, \<lparr>numbers = [Fin 2, NaN False, Fin 1], errors = []\<rparr>)
   \<and> mset [Fin 2, NaN False, Fin 1] = mset [NaN False, Fin 1, Fin 2]
   \<and> fst (calculateMedian \<lparr>numbers = [NaN False, Fin 1, Fin 2], errors = []\<rparr>) = Fin 1
   \<and> fst (calculateMedian \<lparr>numbers = [Fin 2, NaN False, Fin 1], errors = []\<rparr>) = Fin 2
   \<and> \<not> same_value (Fin 1) (Fin 2) \<and> \<not> deq (Fin 1) (Fin 2)"
  by (simp add: parse_nan_1_2 parse_2_nan_1 calculateMedian_def sort_nan_first sort_nan_middle
      same_value_def deq_def)

theorem median_same_for_permutations_witness:
  "same_value (fst (calculateMedian \<lparr>numbers = [Fin 3, Fin 1, Fin 2], errors = []\<rparr>))
     (fst (calculateMedian \<lparr>numbers = [Fin 1, Fin 2, Fin 3], errors = []\<rparr>))"
  by (rule median_same_for_permutations [THEN conjunct1]) simp_all

subsection \<open>Quartiles\<close>

lemma ascending_std_sort:
  assumes "\<forall>x \<in> set xs. \<not> is_nan x"
  shows "ascending (std_sort xs)"
proof -
  have "sorted_wrt (\<lambda>a b. position a \<le> position b) (std_sort xs)"
    using sorted_std_sort [OF assms] by (simp add: sorted_wrt_map)
  then have "sorted_wrt (\<lambda>a b. \<not> dlt b a) (std_sort xs)"
    by (rule sorted_wrt_mono_rel [rotated]) (auto simp: dlt_def)
  then show ?thesis
    by (simp add: ascending_def)
qed

lemma report_iqr_line:
  assumes "numbers st \<noteq> []"
  shows "\<exists>pre post. fst (generateReport st) =
     pre @ ''  IQR: ''
     @ show_double (dsub (fst (calculateQuartiles st) ! 2) (fst (calculateQuartiles st) ! 0))
     @ ''\<newline>\<newline>'' @ post"
proof -
  let ?q = "fst (calculateQuartiles st)"
  let ?pre = "report_header @ warnings_section st @ basic_section st @ range_section st
     @ dispersion_section st @ ''Quartile Analysis:\<newline>''
     @ ''  Q1 (25th percentile): '' @ show_double (?q ! 0) @ ''\<newline>''
     @ ''  Q2 (50th percentile): '' @ show_double (?q ! 1) @ ''\<newline>''
     @ ''  Q3 (75th percentile): '' @ show_double (?q ! 2) @ ''\<newline>''"
  have "fst (generateReport st) =
     ?pre @ ''  IQR: '' @ show_double (dsub (?q ! 2) (?q ! 0)) @ ''\<newline>\<newline>'' @ sign_section st"
    unfolding report_sections [OF assms] quartile_section_def
    by (simp only: append_assoc)
  then show ?thesis by blast
qed

text \<open>
  Claim C4, as the code has it. With fewer than four numbers the quartiles are the triple
  of zeros. With \<open>n \<ge> 4\<close> numbers they are the elements of the copy that \<^verbatim>\<open>std::sort\<close> has
  rearranged, at the indices \<open>n div 4\<close>, \<open>n div 2\<close> and \<open>3 * n div 4\<close>, all within the
  copy. The copy holds the same values as the numbers; it is ascending when no value is a
  NaN. The report prints the IQR as the third quartile minus the first.
\<close>

theorem quartiles_by_index:
  "(length (numbers st) < 4 \<longrightarrow> fst (calculateQuartiles st) = [Fin 0, Fin 0, Fin 0])
   \<and> (4 \<le> length (numbers st) \<longrightarrow>
        (let n = length (numbers st); s = std_sort (numbers st)
         in fst (calculateQuartiles st) = [s ! (n div 4), s ! (n div 2), s ! (3 * n div 4)]
            \<and> length s = n \<and> n div 4 < n \<and> n div 2 < n \<and> 3 * n div 4 < n
            \<and> mset s = mset (numbers st)
            \<and> ((\<forall>x \<in> set (numbers st). \<not> is_nan x) \<longrightarrow> ascending s)))
   \<and> (numbers st \<noteq> [] \<longrightarrow>
        (\<exists>pre post. fst (generateReport st) =
           pre @ ''  IQR: ''
           @ show_double (dsub (fst (calculateQuartiles st) ! 2) (fst (calculateQuartiles st) ! 0))
           @ ''\<newline>\<newline>'' @ post))"
proof (intro conjI impI)
  assume "length (numbers st) < 4"
  then show "fst (calculateQuartiles st) = [Fin 0, Fin 0, Fin 0]"
    by (simp add: calculateQuartiles_def)
next
  assume n: "4 \<le> length (numbers st)"
  then have "fst (calculateQuartiles st) =
      [std_sort (numbers st) ! (length (numbers st) div 4),
       std_sort (numbers st) ! (length (numbers st) div 2),
       std_sort (numbers st) ! (3 * length (numbers st) div 4)]"
    by (simp add: calculateQuartiles_def Let_def length_std_sort)
  moreover have "length (numbers st) div 4 < length (numbers st)"
    "length (numbers st) div 2 < length (numbers st)"
    "3 * length (numbers st) div 4 < length (numbers st)"
    using n by auto
  ultimately show "let n = length (numbers st); s = std_sort (numbers st)
         in fst (calculateQuartiles st) = [s ! (n div 4), s ! (n div 2), s ! (3 * n div 4)]
            \<and> length s = n \<and> n div 4 < n \<and> n div 2 < n \<and> 3 * n div 4 < n
            \<and> mset s = mset (numbers st)
            \<and> ((\<forall>x \<in> set (numbers st). \<not> is_nan x) \<longrightarrow> ascending s)"
    by (simp add: Let_def length_std_sort mset_std_sort ascending_std_sort)
next
  assume "numbers st \<noteq> []"
  then show "\<exists>pre post. fst (generateReport st) =
           pre @ ''  IQR: ''
           @ show_double (dsub (fst (calculateQuartiles st) ! 2) (fst (calculateQuartiles st) ! 0))
           @ ''\<newline>\<newline>'' @ post"
    by (rule report_iqr_line)
qed

theorem quartiles_by_index_witness:
  "fst (calculateQuartiles \<lparr>numbers = [Fin 1, Fin 2, Fin 3], errors = []\<rparr>) = [Fin 0, Fin 0, Fin 0]
   \<and> fst (calculateQuartiles six_values) = [Fin 8, Fin 16, Fin 23]
   \<and> (\<exists>pre post. fst (generateReport six_values) =
         pre @ ''  IQR: '' @ show_double (dsub (Fin 23) (Fin 8)) @ ''\<newline>\<newline>'' @ post)"
proof -
  have a: "length (numbers \<lparr>numbers = [Fin 1, Fin 2, Fin 3], errors = []\<rparr>) < 4"
    by simp
  have b: "numbers six_values \<noteq> []"
    by (simp add: six_values_def)
  note w1 = quartiles_by_index
    [of "\<lparr>numbers = [Fin 1, Fin 2, Fin 3], errors = []\<rparr>", THEN conjunct1, rule_format, OF a]
  note w2 = quartiles_by_index
    [of six_values, THEN conjunct2, THEN conjunct2, rule_format, OF b]
  show ?thesis
    using w1 w2 by (simp add: quartiles_six del: show_double.simps)
qed

lemma parse_3_nan_1_2:
  "parse ''3,nan,1,2'' new_analyzer =
     (True, \<lparr>numbers = [Fin 3, NaN False, Fin 1, Fin 2], errors = []\<rparr>)"
  by (simp add: parse_simps stod_small)

lemma sort_3_nan_1_2:
  "std_sort [Fin 3, NaN False, Fin 1, Fin 2] = [Fin 1, Fin 3, NaN False, Fin 2]"
  by (simp add: std_sort_short insertion_sort_def insertion_step_def dlt_def)

text \<open>
  Claim C4 as stated fails when a number is a NaN: for the argument \<^verbatim>\<open>3,nan,1,2\<close> the
  copy that \<^verbatim>\<open>std::sort\<close> leaves is 1, 3, NaN, 2, which is not ascending, and the quartiles
  are 3, NaN and 2: the third quartile is less than the first, and the IQR is \<open>-1\<close>.
\<close>

theorem quartiles_not_ascending_with_nan:
  "parse ''3,nan,1,2'' new_analyzer =
     (True, \<lparr>numbers = [Fin 3, NaN False, Fin 1, Fin 2], errors = []\<rparr>)
   \<and> std_sort [Fin 3, NaN False, Fin 1, Fin 2] = [Fin 1, Fin 3, NaN False, Fin 2]
   \<and> \<not> ascending (std_sort [Fin 3, NaN False, Fin 1, Fin 2])
   \<and> fst (calculateQuartiles \<lparr>numbers = [Fin 3, NaN False, Fin 1, Fin 2], errors = []\<rparr>)
       = [Fin 3, NaN False, Fin 2]
   \<and> dlt (Fin 2) (Fin 3)
   \<and> dsub (Fin 2) (Fin 3) = Fin (- 1)"
proof -
  have "dsub (Fin 2) (Fin 3) = Fin (- 1)"
    using round_double_int [of "- 1"] by (simp add: dsub_def dadd_def)
  then show ?thesis
    by (simp add: parse_3_nan_1_2 sort_3_nan_1_2 calculateQuartiles_def ascending_def dlt_def)
qed

subsection \<open>The program\<close>







subsection \<open>The standard deviation\<close>

lemma pow2_nonneg [simp]: "0 \<le> pow2 k"
  by (rule less_imp_le) (rule pow2_pos)

lemma not_nan_make_double [simp]: "\<not> is_nan (make_double neg r)"
  by (simp add: make_double_def)

lemma not_nan_round_double [simp]: "\<not> is_nan (round_double q)"
  by (simp add: round_double_def)

lemma dge_zero_make_double: "0 \<le> r \<Longrightarrow> dge (make_double False r) (Fin 0)"
  by (simp add: make_double_def dge_def)

lemma round_magnitude_nonneg: "0 \<le> a \<Longrightarrow> 0 \<le> round_magnitude a"
proof -
  assume a: "0 \<le> a"
  define t where "t = max (floor_log2 a) (- 1022) - 52"
  have "0 \<le> a / pow2 t"
    using a by (simp add: zero_le_divide_iff)
  then have "0 \<le> round_half_even (a / pow2 t)"
    by (rule round_half_even_nonneg)
  then have "0 \<le> (of_int (round_half_even (a / pow2 t)) :: rat) * pow2 t"
    by simp
  then show ?thesis
    by (simp add: round_magnitude_def Let_def t_def [symmetric])
qed

lemma dge_zero_round_double: "0 < q \<Longrightarrow> dge (round_double q) (Fin 0)"
  using round_magnitude_nonneg [of "\<bar>q\<bar>"] by (simp add: round_double_def dge_zero_make_double)

lemma dge_zero_cases:
  "dge a (Fin 0) \<longleftrightarrow> a = PosInf \<or> a = NegZero \<or> (\<exists>q. a = Fin q \<and> 0 \<le> q)"
  by (cases a) (auto simp: dge_def)

lemma dge_zero_dadd:
  assumes "dge a (Fin 0)" "dge b (Fin 0)"
  shows "dge (dadd a b) (Fin 0)"
proof -
  consider "a = PosInf" | "b = PosInf" "a \<noteq> PosInf"
    | "\<not> is_inf a" "\<not> is_inf b" "rat_of a + rat_of b = 0"
    | "\<not> is_inf a" "\<not> is_inf b" "\<not> is_nan a" "\<not> is_nan b" "0 < rat_of a + rat_of b"
    using assms unfolding dge_zero_cases by fastforce
  then show ?thesis
  proof cases
    case 1
    with assms(2) show ?thesis
      unfolding dge_zero_cases by (auto simp: dadd_def)
  next
    case 2
    with assms(1) show ?thesis
      unfolding dge_zero_cases by (auto simp: dadd_def)
  next
    case 3
    with assms show ?thesis
      unfolding dge_zero_cases [of a] dge_zero_cases [of b] by (auto simp: dadd_def dge_def)
  next
    case 4
    then show ?thesis
      by (simp add: dadd_def dge_zero_round_double)
  qed
qed

lemma dge_zero_square:
  assumes "\<not> is_nan d"
  shows "dge (dmul d d) (Fin 0)"
proof (cases d)
  case (Fin q)
  show ?thesis
  proof (cases "q = 0")
    case True
    with Fin show ?thesis by (simp add: dmul_def dge_def)
  next
    case False
    then have "0 < q * q"
      by (simp add: power2_eq_square [symmetric])
    with Fin False show ?thesis
      by (simp add: dmul_def dge_zero_round_double)
  qed
qed (use assms in \<open>simp_all add: dmul_def dge_def\<close>)

lemma dge_zero_ddiv:
  assumes "dge a (Fin 0)" "0 < n"
  shows "dge (ddiv a (Fin n)) (Fin 0)"
proof -
  consider "a = PosInf" | "a = NegZero" | "a = Fin 0" | q where "a = Fin q" "0 < q"
    using assms(1) unfolding dge_zero_cases by fastforce
  then show ?thesis
  proof cases
    case 4
    then have "0 < q / n" using assms(2) by simp
    with 4 assms(2) show ?thesis
      by (simp add: ddiv_def dge_zero_round_double)
  qed (use assms(2) in \<open>simp_all add: ddiv_def dge_def\<close>)
qed

lemma isqrt_nonneg: "0 \<le> isqrt n"
proof (induction n rule: isqrt.induct)
  case (1 n)
  show ?case
  proof (cases "n \<le> 0")
    case True
    then show ?thesis by (subst isqrt.simps) simp
  next
    case False
    with 1 have "0 \<le> isqrt (n div 4)" by simp
    with False show ?thesis
      by (subst isqrt.simps) (simp add: isqrt_step_def)
  qed
qed

lemma round_sqrt_nonneg: "0 \<le> round_sqrt q"
proof -
  define t where "t = max (floor_log2 q div 2) (- 1022) - 52"
  define x where "x = q / pow2 (2 * t)"
  define m where "m = isqrt \<lfloor>x\<rfloor>"
  define h :: rat where "h = of_int (m * m + m) + 1 / 4"
  define r where "r = (if x < h then m else if h < x then m + 1 else if even m then m else m + 1)"
  have "0 \<le> m"
    unfolding m_def by (rule isqrt_nonneg)
  then have "0 \<le> r"
    unfolding r_def by (simp split: if_splits)
  then have "0 \<le> (of_int r :: rat) * pow2 t"
    by (simp add: zero_le_mult_iff)
  moreover have "round_sqrt q = of_int r * pow2 t"
    by (simp only: round_sqrt_def Let_def r_def h_def m_def x_def t_def)
  ultimately show ?thesis
    by simp
qed

lemma dsqrt_nan_or_nonneg: "is_nan (dsqrt x) \<or> dge (dsqrt x) (Fin 0)"
  by (cases x) (simp_all add: dge_zero_make_double round_sqrt_nonneg, simp_all add: dge_def)

lemma dge_zero_dsqrt: "dge x (Fin 0) \<Longrightarrow> dge (dsqrt x) (Fin 0)"
  using dsqrt_nan_or_nonneg [of x] by (cases x) (auto simp: dge_def)

lemma not_nan_dadd_finite: "\<not> is_nan a \<Longrightarrow> is_finite b \<Longrightarrow> \<not> is_nan (dadd a b)"
  by (cases b) (simp_all add: dadd_def)

lemma not_nan_sum:
  "\<not> is_nan acc \<Longrightarrow> \<forall>x \<in> set xs. is_finite x \<Longrightarrow>
   \<not> is_nan (foldl (\<lambda>sum num. dadd sum num) acc xs)"
  by (induction xs arbitrary: acc) (simp_all add: not_nan_dadd_finite)

lemma not_nan_ddiv_positive: "\<not> is_nan a \<Longrightarrow> 0 < n \<Longrightarrow> \<not> is_nan (ddiv a (Fin n))"
  by (cases a) (simp_all add: ddiv_def)

lemma not_nan_dsub_finite: "is_finite a \<Longrightarrow> \<not> is_nan b \<Longrightarrow> \<not> is_nan (dsub a b)"
  by (cases a; cases b) (simp_all add: dsub_def dadd_def)

lemma dge_zero_sum_squares:
  assumes "dge acc (Fin 0)" "\<forall>x \<in> set xs. is_finite x" "\<not> is_nan avg"
  shows "dge (foldl (\<lambda>acc num. let diff = dsub num avg in dadd acc (dmul diff diff)) acc xs) (Fin 0)"
  using assms
proof (induction xs arbitrary: acc)
  case Nil
  then show ?case by simp
next
  case (Cons x xs)
  have "\<not> is_nan (dsub x avg)"
    using Cons.prems by (simp add: not_nan_dsub_finite)
  then have "dge (dadd acc (dmul (dsub x avg) (dsub x avg))) (Fin 0)"
    using Cons.prems(1) by (intro dge_zero_dadd dge_zero_square)
  then show ?case
    using Cons.IH Cons.prems by (simp add: Let_def)
qed

lemma double_of_size_exact:
  assumes "0 < n" "n < 2 ^ 53"
  shows "double_of_size n = Fin (of_nat n)"
  using round_double_int [of "int n"] assms by (simp add: double_of_size_def)

lemma stddev_nonneg_finite:
  assumes "\<forall>x \<in> set (numbers st). is_finite x" "length (numbers st) < 2 ^ 53"
  shows "dge (fst (calculateStdDev st)) (Fin 0)"
proof (cases "numbers st = []")
  case True
  then show ?thesis by (simp add: calculateStdDev_def dge_def)
next
  case False
  define n where "n = length (numbers st)"
  have n: "0 < n" "n < 2 ^ 53" using False assms(2) by (simp_all add: n_def)
  have size: "double_of_size n = Fin (of_nat n)"
    using n by (rule double_of_size_exact)
  define avg where "avg = fst (calculateAverage st)"
  have "avg = ddiv (foldl (\<lambda>sum num. dadd sum num) (Fin 0) (numbers st)) (Fin (of_nat n))"
    using False by (simp add: avg_def calculateAverage_def calculateSum_def n_def [symmetric] size)
  then have avg: "\<not> is_nan avg"
    using assms(1) n(1) by (simp add: not_nan_ddiv_positive not_nan_sum)
  have "fst (calculateStdDev st) =
      dsqrt (ddiv (foldl (\<lambda>acc num. let diff = dsub num avg in dadd acc (dmul diff diff))
        (Fin 0) (numbers st)) (Fin (of_nat n)))"
    using False
    by (simp add: calculateStdDev_def split_def snd_calculateAverage avg_def n_def [symmetric] size)
  moreover have "dge (Fin 0) (Fin 0)" by (simp add: dge_def)
  ultimately show ?thesis
    using assms(1) avg n(1) by (simp add: dge_zero_dsqrt dge_zero_ddiv dge_zero_sum_squares)
qed

lemma report_dispersion_lines:
  assumes "numbers st \<noteq> []"
  shows "\<exists>pre post. fst (generateReport st) =
     pre @ ''  Standard Deviation: '' @ show_double (fst (calculateStdDev st)) @ ''\<newline>''
     @ ''  Variance: ''
     @ show_double (dmul (fst (calculateStdDev st)) (fst (calculateStdDev st)))
     @ ''\<newline>\<newline>'' @ post"
proof -
  let ?sd = "fst (calculateStdDev st)"
  let ?pre = "report_header @ warnings_section st @ basic_section st @ range_section st
     @ ''Dispersion Statistics:\<newline>''"
  have "fst (generateReport st) =
     ?pre @ ''  Standard Deviation: '' @ show_double ?sd @ ''\<newline>''
     @ ''  Variance: '' @ show_double (dmul ?sd ?sd) @ ''\<newline>\<newline>''
     @ (quartile_section st @ sign_section st)"
    unfolding report_sections [OF assms] dispersion_section_def
    by (simp only: append_assoc)
  then show ?thesis by blast
qed

lemma floor_log2_one: "floor_log2 1 = 0"
  by (rule floor_log2_eq) (simp_all add: pow2_def)

lemma isqrt_power4: "isqrt (4 ^ k) = 2 ^ k"
proof (induction k)
  case 0
  have "isqrt 0 = 0" by (subst isqrt.simps) simp
  then show ?case by (subst isqrt.simps) (simp add: isqrt_step_def)
next
  case (Suc k)
  have pos: "\<not> (4 :: int) ^ Suc k \<le> 0"
    by (simp add: not_le)
  have quarter: "(4 :: int) ^ Suc k div 4 = 4 ^ k"
    by simp
  have "isqrt (4 ^ Suc k) = isqrt_step (4 ^ Suc k) (2 * isqrt (4 ^ Suc k div 4))"
    by (simp only: isqrt.simps [of "4 ^ Suc k"] pos if_False)
  also have "\<dots> = isqrt_step (4 ^ Suc k) (2 ^ Suc k)"
    unfolding quarter Suc by simp
  also have "\<dots> = 2 ^ Suc k"
  proof -
    have "(2 ^ Suc k + 1) * (2 ^ Suc k + 1) = (4 :: int) ^ Suc k + 2 * 2 ^ Suc k + 1"
      by (simp add: algebra_simps power_mult_distrib [symmetric])
    moreover have "(0 :: int) < 2 ^ Suc k"
      by simp
    ultimately have "\<not> (2 ^ Suc k + 1) * (2 ^ Suc k + 1) \<le> (4 :: int) ^ Suc k"
      by linarith
    then show ?thesis
      by (simp only: isqrt_step_def if_False)
  qed
  finally show ?case .
qed

lemma dsqrt_one: "dsqrt (Fin 1) = Fin 1"
proof -
  have t: "max (floor_log2 1 div 2) (- 1022) - 52 = - 52"
    by (simp add: floor_log2_one)
  have x: "(1 :: rat) / pow2 (2 * - 52) = of_int (4 ^ 52)"
    by (simp add: pow2_def)
  have m: "isqrt \<lfloor>(of_int (4 ^ 52) :: rat)\<rfloor> = 2 ^ 52"
    unfolding floor_of_int by (rule isqrt_power4)
  have "round_sqrt 1 = of_int (2 ^ 52) * pow2 (- 52)"
    by (simp only: round_sqrt_def Let_def t x m) simp
  also have "\<dots> = 1"
    by (simp add: pow2_def)
  finally show ?thesis
    by (simp add: make_double_def pow2_def)
qed

lemma stddev_1_3: "fst (calculateStdDev \<lparr>numbers = [Fin 1, Fin 3], errors = []\<rparr>) = Fin 1"
proof -
  have avg: "fst (calculateAverage \<lparr>numbers = [Fin 1, Fin 3], errors = []\<rparr>) = Fin 2"
    using round_double_int [of 1] round_double_int [of 4] round_double_int [of 2]
    by (simp add: calculateAverage_def calculateSum_def dadd_def ddiv_def double_of_size_def)
  show ?thesis
    using round_double_int [of "- 1"] round_double_int [of 1] round_double_int [of 2]
    by (simp add: calculateStdDev_def split_def avg snd_calculateAverage dsub_def dadd_def
        dmul_def ddiv_def double_of_size_def dsqrt_one del: dsqrt.simps)
qed

lemma stod_inf: "stod ''inf'' = Inr PosInf"
  by (simp add: scan_simps)

lemma parse_inf: "parse ''inf'' new_analyzer = (True, \<lparr>numbers = [PosInf], errors = []\<rparr>)"
  by (simp add: parse_simps stod_inf)

lemma stddev_inf: "fst (calculateStdDev \<lparr>numbers = [PosInf], errors = []\<rparr>) = NaN True"
proof -
  have avg: "fst (calculateAverage \<lparr>numbers = [PosInf], errors = []\<rparr>) = PosInf"
    using round_double_int [of 1]
    by (simp add: calculateAverage_def calculateSum_def dadd_def ddiv_def double_of_size_def)
  show ?thesis
    using round_double_int [of 1]
    by (simp add: calculateStdDev_def split_def avg snd_calculateAverage dsub_def dadd_def
        dmul_def ddiv_def double_of_size_def)
qed

text \<open>
  Claim C5, as the code has it. The report prints the value that \<^verbatim>\<open>calculateStdDev\<close>
  returns and, as the variance, the product of that value with itself; nothing else is
  computed for the variance. The standard deviation is a NaN or at least zero: it is at
  least zero when every number is finite (for fewer than \<open>2 ^ 53\<close> numbers, so that the count
  is converted exactly).
\<close>

theorem variance_is_stddev_squared:
  "(numbers st \<noteq> [] \<longrightarrow>
      (\<exists>pre post. fst (generateReport st) =
         pre @ ''  Standard Deviation: '' @ show_double (fst (calculateStdDev st)) @ ''\<newline>''
         @ ''  Variance: ''
         @ show_double (dmul (fst (calculateStdDev st)) (fst (calculateStdDev st)))
         @ ''\<newline>\<newline>'' @ post))
   \<and> (is_nan (fst (calculateStdDev st)) \<or> dge (fst (calculateStdDev st)) (Fin 0))
   \<and> ((\<forall>x \<in> set (numbers st). is_finite x) \<and> length (numbers st) < 2 ^ 53 \<longrightarrow>
        dge (fst (calculateStdDev st)) (Fin 0))"
proof (intro conjI impI)
  assume "numbers st \<noteq> []"
  then show "\<exists>pre post. fst (generateReport st) =
         pre @ ''  Standard Deviation: '' @ show_double (fst (calculateStdDev st)) @ ''\<newline>''
         @ ''  Variance: ''
         @ show_double (dmul (fst (calculateStdDev st)) (fst (calculateStdDev st)))
         @ ''\<newline>\<newline>'' @ post"
    by (rule report_dispersion_lines)
next
  show "is_nan (fst (calculateStdDev st)) \<or> dge (fst (calculateStdDev st)) (Fin 0)"
  proof (cases "numbers st = []")
    case True
    then show ?thesis by (simp add: calculateStdDev_def dge_def)
  next
    case False
    then show ?thesis
      using dsqrt_nan_or_nonneg by (simp add: calculateStdDev_def split_def Let_def)
  qed
next
  assume "(\<forall>x \<in> set (numbers st). is_finite x) \<and> length (numbers st) < 2 ^ 53"
  then show "dge (fst (calculateStdDev st)) (Fin 0)"
    by (simp add: stddev_nonneg_finite)
qed

text \<open>
  Claim C5 as stated fails when the standard deviation is a NaN: for the argument
  \<^verbatim>\<open>inf\<close> the average is infinite, the difference of the number and the average is a NaN,
  and so is the standard deviation, which is not at least zero.
\<close>

theorem stddev_of_infinity_is_nan:
  "parse ''inf'' new_analyzer = (True, \<lparr>numbers = [PosInf], errors = []\<rparr>)
   \<and> fst (calculateStdDev \<lparr>numbers = [PosInf], errors = []\<rparr>) = NaN True
   \<and> \<not> dge (NaN True) (Fin 0)
   \<and> show_double (NaN True) = ''-nan''"
  by (simp add: parse_inf stddev_inf dge_def)

theorem variance_is_stddev_squared_witness:
  "(\<exists>pre post. fst (generateReport \<lparr>numbers = [Fin 1, Fin 3], errors = []\<rparr>) =
      pre @ ''  Standard Deviation: '' @ show_double (Fin 1) @ ''\<newline>''
      @ ''  Variance: '' @ show_double (dmul (Fin 1) (Fin 1)) @ ''\<newline>\<newline>'' @ post)
   \<and> dmul (Fin 1) (Fin 1) = Fin 1
   \<and> dge (fst (calculateStdDev \<lparr>numbers = [Fin 1, Fin 3], errors = []\<rparr>)) (Fin 0)"
proof -
  have a: "numbers \<lparr>numbers = [Fin 1, Fin 3], errors = []\<rparr> \<noteq> []"
    by simp
  have b: "(\<forall>x \<in> set (numbers \<lparr>numbers = [Fin 1, Fin 3], errors = []\<rparr>). is_finite x)
      \<and> length (numbers \<lparr>numbers = [Fin 1, Fin 3], errors = []\<rparr>) < 2 ^ 53"
    by simp
  note w1 = variance_is_stddev_squared
    [of "\<lparr>numbers = [Fin 1, Fin 3], errors = []\<rparr>", THEN conjunct1, rule_format, OF a]
  note w2 = variance_is_stddev_squared
    [of "\<lparr>numbers = [Fin 1, Fin 3], errors = []\<rparr>", THEN conjunct2, THEN conjunct2,
      rule_format, OF b]
  have "dmul (Fin 1) (Fin 1) = Fin 1"
    using round_double_int [of 1] by (simp add: dmul_def)
  then show ?thesis
    using w1 w2 by (simp only: stddev_1_3 simp_thms)
qed

subsection \<open>The mode\<close>

lemma runs_cons_not_empty: "runs (x # xs) \<noteq> []"
  by (induction xs arbitrary: x) (auto split: list.splits)

lemma runs_not_Nil: "[] \<notin> set (runs xs)"
  by (induction xs rule: runs.induct) (auto split: list.splits)

lemma hd_runs_cons: "runs (x # xs) = r # rs \<Longrightarrow> hd r = x \<and> r \<noteq> []"
  by (cases xs) (auto split: list.splits if_splits)

lemma concat_runs: "concat (runs xs) = xs"
  by (induction xs rule: runs.induct) (auto split: list.splits)

lemma longer_pair:
  "longer (m, k) r = (if k < int (length r) then (last r, int (length r)) else (m, k))"
  by (simp add: longer_def)

lemma mode_loop_runs:
  assumes "1 \<le> c" "c \<le> mx" "runs (prev # rest) = r # rs"
  shows "mode_loop rest prev mode mx c
         = fst (foldl longer
                  (if c + int (length r) - 1 > mx then (last r, c + int (length r) - 1)
                   else (mode, mx)) rs)"
  using assms
proof (induction rest arbitrary: prev mode mx c r rs)
  case Nil
  then show ?case by auto
next
  case (Cons x rest)
  obtain r' rs' where r': "runs (x # rest) = r' # rs'"
    using runs_cons_not_empty [of x rest] by (cases "runs (x # rest)") auto
  then have hd: "hd r' = x" "r' \<noteq> []" using hd_runs_cons by auto
  then have len: "1 \<le> int (length r')" by (cases r') auto
  show ?case
  proof (cases "deq x prev")
    case True
    then have r: "r = prev # r'" "rs = rs'" using Cons.prems(3) r' by auto
    show ?thesis
    proof (cases "c + 1 > mx")
      case gt: True
      have "mode_loop (x # rest) prev mode mx c = mode_loop rest x x (c + 1) (c + 1)"
        using True gt by simp
      also have "\<dots> = fst (foldl longer
            (if (c + 1) + int (length r') - 1 > c + 1 then (last r', (c + 1) + int (length r') - 1)
             else (x, c + 1)) rs')"
        using Cons.prems(1) r' by (intro Cons.IH) auto
      also have "\<dots> = fst (foldl longer (last r', c + int (length r')) rs')"
      proof (cases "length r' = 1")
        case True
        then have "r' = [x]" using hd by (cases r') auto
        then show ?thesis by simp
      next
        case False
        then have "1 < length r'" using hd(2) by (cases r') auto
        then show ?thesis by simp
      qed
      finally show ?thesis using gt r hd(2) len by simp
    next
      case le: False
      have "mode_loop (x # rest) prev mode mx c = mode_loop rest x mode mx (c + 1)"
        using True le by simp
      also have "\<dots> = fst (foldl longer
            (if (c + 1) + int (length r') - 1 > mx then (last r', (c + 1) + int (length r') - 1)
             else (mode, mx)) rs')"
        using Cons.prems(1) le r' by (intro Cons.IH) auto
      finally show ?thesis using r hd(2) by simp
    qed
  next
    case False
    then have r: "r = [prev]" "rs = r' # rs'" using Cons.prems(3) r' by auto
    have "mode_loop (x # rest) prev mode mx c = mode_loop rest x mode mx 1"
      using False by simp
    also have "\<dots> = fst (foldl longer
          (if 1 + int (length r') - 1 > mx then (last r', 1 + int (length r') - 1)
           else (mode, mx)) rs')"
      using Cons.prems(1,2) r' by (intro Cons.IH) auto
    finally show ?thesis using r Cons.prems(2) by (simp add: longer_pair)
  qed
qed

lemma longest_run_Cons: "longest_run (r # rs) = max (length r) (longest_run rs)"
  by (simp add: longest_run_def)

lemma longest_run_Nil: "longest_run [] = 0"
  by (simp add: longest_run_def)

lemma foldl_longer:
  "0 \<le> k \<Longrightarrow> foldl longer (m, k) rs =
     (if int (longest_run rs) > k then (last (first_longest_run rs), int (longest_run rs))
      else (m, k))"
proof (induction rs arbitrary: m k)
  case Nil
  then show ?case by (simp add: longest_run_Nil)
next
  case (Cons r rs)
  show ?case
  proof (cases "int (length r) > k")
    case True
    then have "foldl longer (m, k) (r # rs) = foldl longer (last r, int (length r)) rs"
      by (simp add: longer_pair)
    also have "\<dots> = (if int (longest_run rs) > int (length r)
        then (last (first_longest_run rs), int (longest_run rs)) else (last r, int (length r)))"
      by (rule Cons.IH) simp
    finally show ?thesis
      using True by (auto simp: longest_run_Cons first_longest_run_def max_def)
  next
    case False
    then have "foldl longer (m, k) (r # rs) = foldl longer (m, k) rs"
      by (simp add: longer_pair)
    also have "\<dots> = (if int (longest_run rs) > k
        then (last (first_longest_run rs), int (longest_run rs)) else (m, k))"
      using Cons.prems by (rule Cons.IH)
    finally show ?thesis
      using False by (auto simp: longest_run_Cons first_longest_run_def max_def)
  qed
qed

lemma mode_loop_mode_by_runs:
  "mode_loop xs x x 1 1 = mode_by_runs (x # xs)"
proof -
  obtain r rs where r: "runs (x # xs) = r # rs"
    using runs_cons_not_empty [of x xs] by (cases "runs (x # xs)") auto
  then have hd: "hd r = x" "r \<noteq> []" using hd_runs_cons by auto
  have len: "1 \<le> length r" using hd(2) by (cases r) auto
  have "mode_loop xs x x 1 1
        = fst (foldl longer (if 1 + int (length r) - 1 > 1 then (last r, 1 + int (length r) - 1)
                   else (x, 1)) rs)"
    using r by (intro mode_loop_runs) auto
  also have "\<dots> = fst (foldl longer (last r, int (length r)) rs)"
  proof (cases "length r = 1")
    case True
    then have "r = [x]" using hd by (cases r) auto
    then show ?thesis by simp
  next
    case False
    then show ?thesis using len by auto
  qed
  also have "\<dots> = fst (foldl longer (x, 0) (r # rs))"
    using len hd(2) by (simp add: longer_pair)
  also have "\<dots> = last (first_longest_run (r # rs))"
  proof -
    have "foldl longer (x, 0) (r # rs) =
        (if int (longest_run (r # rs)) > 0
         then (last (first_longest_run (r # rs)), int (longest_run (r # rs))) else (x, 0))"
      by (rule foldl_longer) simp
    moreover have "int (longest_run (r # rs)) > 0"
      using len by (simp add: longest_run_Cons)
    ultimately show ?thesis by simp
  qed
  finally show ?thesis by (simp add: mode_by_runs_def r)
qed

lemma findMode_mode_by_runs:
  assumes "numbers st \<noteq> []"
  shows "fst (findMode st) = mode_by_runs (std_sort (numbers st))"
proof -
  have "std_sort (numbers st) \<noteq> []"
    using assms length_std_sort [of "numbers st"] by auto
  then obtain x xs where s: "std_sort (numbers st) = x # xs"
    by (cases "std_sort (numbers st)") auto
  then show ?thesis
    using assms by (simp add: findMode_def mode_loop_mode_by_runs)
qed

lemma mode_by_runs_scan:
  assumes "xs \<noteq> []"
  shows "mode_by_runs xs = fst (foldl longer (hd xs, 0) (runs xs))"
proof -
  obtain x xs' where xs: "xs = x # xs'"
    using assms by (cases xs) auto
  obtain r rs where r: "runs (x # xs') = r # rs"
    using runs_cons_not_empty [of x xs'] by (cases "runs (x # xs')") auto
  then have "r \<noteq> []" using hd_runs_cons by auto
  then have "1 \<le> length r" by (cases r) auto
  then have pos: "int (longest_run (runs xs)) > 0"
    by (simp add: xs r longest_run_Cons)
  have "foldl longer (hd xs, 0) (runs xs) =
      (if int (longest_run (runs xs)) > 0
       then (last (first_longest_run (runs xs)), int (longest_run (runs xs))) else (hd xs, 0))"
    by (rule foldl_longer) simp
  with pos show ?thesis
    by (simp add: mode_by_runs_def)
qed

lemma parse_mode_example:
  "parse ''1,1,2,2,2,3'' new_analyzer
   = (True, \<lparr>numbers = [Fin 1, Fin 1, Fin 2, Fin 2, Fin 2, Fin 3], errors = []\<rparr>)"
  by (simp add: parse_simps stod_small)

lemma sort_mode_example:
  "std_sort [Fin 1, Fin 1, Fin 2, Fin 2, Fin 2, Fin 3]
   = [Fin 1, Fin 1, Fin 2, Fin 2, Fin 2, Fin 3]"
  by (simp add: std_sort_short insertion_sort_def insertion_step_def dlt_def)

lemma sort_tie_example: "std_sort [Fin 2, Fin 1, Fin 2, Fin 1] = [Fin 1, Fin 1, Fin 2, Fin 2]"
  by (simp add: std_sort_short insertion_sort_def insertion_step_def dlt_def)

lemma runs_mode_example:
  "runs [Fin 1, Fin 1, Fin 2, Fin 2, Fin 2, Fin 3]
   = [[Fin 1, Fin 1], [Fin 2, Fin 2, Fin 2], [Fin 3]]"
  by (simp add: deq_def)

lemma find_mode_example:
  "fst (findMode \<lparr>numbers = [Fin 1, Fin 1, Fin 2, Fin 2, Fin 2, Fin 3], errors = []\<rparr>) = Fin 2"
  by (simp add: findMode_def sort_mode_example deq_def)

lemma find_mode_tie_example:
  "fst (findMode \<lparr>numbers = [Fin 2, Fin 1, Fin 2, Fin 1], errors = []\<rparr>) = Fin 1"
  by (simp add: findMode_def sort_tie_example deq_def)

lemma longest_run_example:
  "longest_run [[Fin 1, Fin 1], [Fin 2, Fin 2, Fin 2], [Fin 3]] = 3"
  by (simp add: longest_run_def)

lemma first_longest_run_example:
  "first_longest_run [[Fin 1, Fin 1], [Fin 2, Fin 2, Fin 2], [Fin 3]] = [Fin 2, Fin 2, Fin 2]"
  unfolding first_longest_run_def longest_run_example
  by simp

lemma mode_by_runs_example:
  "mode_by_runs [Fin 1, Fin 1, Fin 2, Fin 2, Fin 2, Fin 3] = Fin 2"
  unfolding mode_by_runs_def runs_mode_example first_longest_run_example
  by simp

text \<open>
  Claim C3, as the code has it. For a non-empty list the mode is the value of the earliest
  run of greatest length among the runs of equal values of the copy that \<^verbatim>\<open>std::sort\<close>
  has rearranged: scanning the runs in order, a later run replaces the one kept only when
  it is strictly longer, so of two runs of the greatest length the earlier one stays. The
  copy holds the same values as the numbers, and it is ascending when no number is a NaN.
  For the input \<^verbatim>\<open>1,1,2,2,2,3\<close> the mode is 2, and for \<^verbatim>\<open>2,1,2,1\<close>, where both runs have
  length two, it is 1.
\<close>

theorem mode_is_first_longest_run:
  "(numbers st \<noteq> [] \<longrightarrow>
      fst (findMode st) = mode_by_runs (std_sort (numbers st))
      \<and> mode_by_runs (std_sort (numbers st))
          = fst (foldl longer (hd (std_sort (numbers st)), 0) (runs (std_sort (numbers st))))
      \<and> concat (runs (std_sort (numbers st))) = std_sort (numbers st)
      \<and> mset (std_sort (numbers st)) = mset (numbers st)
      \<and> ((\<forall>x \<in> set (numbers st). \<not> is_nan x) \<longrightarrow> ascending (std_sort (numbers st))))
   \<and> parse ''1,1,2,2,2,3'' new_analyzer
       = (True, \<lparr>numbers = [Fin 1, Fin 1, Fin 2, Fin 2, Fin 2, Fin 3], errors = []\<rparr>)
   \<and> fst (findMode \<lparr>numbers = [Fin 1, Fin 1, Fin 2, Fin 2, Fin 2, Fin 3], errors = []\<rparr>)
       = Fin 2
   \<and> fst (findMode \<lparr>numbers = [Fin 2, Fin 1, Fin 2, Fin 1], errors = []\<rparr>) = Fin 1"
proof -
  have "std_sort (numbers st) \<noteq> []" if "numbers st \<noteq> []"
    using that length_std_sort [of "numbers st"] by auto
  then have "mode_by_runs (std_sort (numbers st))
      = fst (foldl longer (hd (std_sort (numbers st)), 0) (runs (std_sort (numbers st))))"
    if "numbers st \<noteq> []"
    using that by (intro mode_by_runs_scan) simp
  then show ?thesis
    using findMode_mode_by_runs [of st] concat_runs [of "std_sort (numbers st)"]
      mset_std_sort [of "numbers st"] ascending_std_sort [of "numbers st"]
      parse_mode_example find_mode_example find_mode_tie_example
    by blast
qed

lemma parse_mode_nan:
  "parse ''1,2,2,nan,1,1'' new_analyzer =
     (True, \<lparr>numbers = [Fin 1, Fin 2, Fin 2, NaN False, Fin 1, Fin 1], errors = []\<rparr>)"
  by (simp add: parse_simps stod_small)

lemma sort_mode_nan:
  "std_sort [Fin 1, Fin 2, Fin 2, NaN False, Fin 1, Fin 1]
   = [Fin 1, Fin 2, Fin 2, NaN False, Fin 1, Fin 1]"
  by (simp add: std_sort_short insertion_sort_def insertion_step_def dlt_def)

lemma find_mode_nan:
  "fst (findMode \<lparr>numbers = [Fin 1, Fin 2, Fin 2, NaN False, Fin 1, Fin 1], errors = []\<rparr>)
   = Fin 2"
  by (simp add: findMode_def sort_mode_nan deq_def)

lemma runs_ascending_nan:
  "runs [Fin 1, Fin 1, Fin 1, Fin 2, Fin 2, NaN False]
   = [[Fin 1, Fin 1, Fin 1], [Fin 2, Fin 2], [NaN False]]"
  by (simp add: deq_def)

lemma longest_run_ascending_nan:
  "longest_run [[Fin 1, Fin 1, Fin 1], [Fin 2, Fin 2], [NaN False]] = 3"
  by (simp add: longest_run_def)

lemma first_longest_run_ascending_nan:
  "first_longest_run [[Fin 1, Fin 1, Fin 1], [Fin 2, Fin 2], [NaN False]]
   = [Fin 1, Fin 1, Fin 1]"
  unfolding first_longest_run_def longest_run_ascending_nan
  by simp

lemma mode_by_runs_ascending_nan:
  "mode_by_runs [Fin 1, Fin 1, Fin 1, Fin 2, Fin 2, NaN False] = Fin 1"
  unfolding mode_by_runs_def runs_ascending_nan first_longest_run_ascending_nan
  by simp

text \<open>
  Claim C3 as stated fails when a number is a NaN: for the argument \<^verbatim>\<open>1,2,2,nan,1,1\<close>
  \<^verbatim>\<open>std::sort\<close> leaves the copy as it is, which is not ascending, and the mode is 2,
  although 1 occurs three times and 2 twice. In the ascending arrangement
  1, 1, 1, 2, 2, NaN of the same values the first longest run is the run of 1.
\<close>

theorem mode_misses_run_with_nan:
  "parse ''1,2,2,nan,1,1'' new_analyzer =
     (True, \<lparr>numbers = [Fin 1, Fin 2, Fin 2, NaN False, Fin 1, Fin 1], errors = []\<rparr>)
   \<and> std_sort [Fin 1, Fin 2, Fin 2, NaN False, Fin 1, Fin 1]
       = [Fin 1, Fin 2, Fin 2, NaN False, Fin 1, Fin 1]
   \<and> \<not> ascending (std_sort [Fin 1, Fin 2, Fin 2, NaN False, Fin 1, Fin 1])
   \<and> fst (findMode
         \<lparr>numbers = [Fin 1, Fin 2, Fin 2, NaN False, Fin 1, Fin 1], errors = []\<rparr>) = Fin 2
   \<and> count (mset [Fin 1, Fin 2, Fin 2, NaN False, Fin 1, Fin 1]) (Fin 1) = 3
   \<and> count (mset [Fin 1, Fin 2, Fin 2, NaN False, Fin 1, Fin 1]) (Fin 2) = 2
   \<and> mset [Fin 1, Fin 1, Fin 1, Fin 2, Fin 2, NaN False]
       = mset [Fin 1, Fin 2, Fin 2, NaN False, Fin 1, Fin 1]
   \<and> ascending [Fin 1, Fin 1, Fin 1, Fin 2, Fin 2, NaN False]
   \<and> mode_by_runs [Fin 1, Fin 1, Fin 1, Fin 2, Fin 2, NaN False] = Fin 1
   \<and> \<not> deq (Fin 2) (Fin 1)"
  by (simp add: parse_mode_nan sort_mode_nan find_mode_nan mode_by_runs_ascending_nan
      ascending_def dlt_def deq_def)

theorem mode_is_first_longest_run_witness:
  "fst (findMode \<lparr>numbers = [Fin 1, Fin 1, Fin 2, Fin 2, Fin 2, Fin 3], errors = []\<rparr>)
     = mode_by_runs [Fin 1, Fin 1, Fin 2, Fin 2, Fin 2, Fin 3]
   \<and> runs [Fin 1, Fin 1, Fin 2, Fin 2, Fin 2, Fin 3]
       = [[Fin 1, Fin 1], [Fin 2, Fin 2, Fin 2], [Fin 3]]
   \<and> mode_by_runs [Fin 1, Fin 1, Fin 2, Fin 2, Fin 2, Fin 3] = Fin 2
   \<and> ascending (std_sort [Fin 1, Fin 1, Fin 2, Fin 2, Fin 2, Fin 3])"
proof -
  have ne: "numbers \<lparr>numbers = [Fin 1, Fin 1, Fin 2, Fin 2, Fin 2, Fin 3], errors = []\<rparr> \<noteq> []"
    by simp
  have nn: "\<forall>x \<in> set (numbers
      \<lparr>numbers = [Fin 1, Fin 1, Fin 2, Fin 2, Fin 2, Fin 3], errors = []\<rparr>). \<not> is_nan x"
    by simp
  note w = mode_is_first_longest_run
    [of "\<lparr>numbers = [Fin 1, Fin 1, Fin 2, Fin 2, Fin 2, Fin 3], errors = []\<rparr>",
     THEN conjunct1, THEN mp, OF ne]
  note w1 = w [THEN conjunct1]
  note w2 = w [THEN conjunct2, THEN conjunct2, THEN conjunct2, THEN conjunct2, THEN mp, OF nn]
  have "fst (findMode \<lparr>numbers = [Fin 1, Fin 1, Fin 2, Fin 2, Fin 2, Fin 3], errors = []\<rparr>)
     = mode_by_runs [Fin 1, Fin 1, Fin 2, Fin 2, Fin 2, Fin 3]"
    using w1 by (simp only: analyzer.simps sort_mode_example)
  moreover have "ascending (std_sort [Fin 1, Fin 1, Fin 2, Fin 2, Fin 2, Fin 3])"
    using w2 by (simp only: analyzer.simps)
  ultimately show ?thesis
    by (simp only: runs_mode_example mode_by_runs_example simp_thms)
qed

end
